theory Spec2Isabelle
  imports Main
begin

section \<open>The HTML sanitizer of \<^verbatim>\<open>src/lib/utils/sanitize-html.js\<close>\<close>

text \<open>
  The function \<^verbatim>\<open>sanitizeHtml\<close> parses a string into a DOM document, walks every node
  below the body with a \<^verbatim>\<open>TreeWalker\<close>, filters attributes in place, queues nodes in
  two lists, removes the queued nodes after the walk and returns \<^verbatim>\<open>body.innerHTML\<close>.

  The parser, the serializer and the two validators (\<^verbatim>\<open>validUrl.isWebUri\<close>,
  \<^verbatim>\<open>isemail.validate\<close>) are libraries outside the repository. The embedding therefore
  starts from the parsed content of the body as a tree, ends with the tree that
  \<^verbatim>\<open>innerHTML\<close> would print, and takes the two validators as parameters \<open>W\<close> and \<open>E\<close>.
  Everything in between is the code: a document is an explicit store of nodes addressed by
  handles, and the DOM calls of the source mutate that store.
\<close>

subsection \<open>Parsed input and the document store\<close>

type_synonym attr = "string \<times> string"

datatype html =
    Element string "attr list" "html list"
  | Text string
  | Comment string

datatype node_type = ELEMENT_NODE | TEXT_NODE | COMMENT_NODE

text \<open>
  A DOM node is a handle (a natural number). The document maps each handle to the fields
  the source reads and writes. A text or comment node has no attributes; lodash's
  \<^verbatim>\<open>filter(undefined, f)\<close> is \<^verbatim>\<open>[]\<close>, which the empty attribute list gives as well.
\<close>

type_synonym node = nat

record document =
  nodeType :: "node \<Rightarrow> node_type"
  nodeName :: "node \<Rightarrow> string"
  nodeValue :: "node \<Rightarrow> string"
  attributes :: "node \<Rightarrow> attr list"
  parentNode :: "node \<Rightarrow> node option"
  childNodes :: "node \<Rightarrow> node list"

text \<open>
  The parser's result with the handle of every node written into it: handles are given in
  document order, the body is node 0.
\<close>

datatype dtree =
  DNode (nid: node) (ntype: node_type) (nname: string) (nvalue: string)
        (nattrs: "attr list") (kids: "dtree list")

fun nodeCount :: "html \<Rightarrow> nat" where
  "nodeCount (Element nm as cs) = Suc (sum_list (map nodeCount cs))"
| "nodeCount (Text s) = 1"
| "nodeCount (Comment s) = 1"

fun label :: "nat \<Rightarrow> html \<Rightarrow> dtree"
  and labels :: "nat \<Rightarrow> html list \<Rightarrow> dtree list" where
  "label k (Element nm as cs) = DNode k ELEMENT_NODE nm [] as (labels (Suc k) cs)"
| "label k (Text s) = DNode k TEXT_NODE ''#text'' s [] []"
| "label k (Comment s) = DNode k COMMENT_NODE ''#comment'' s [] []"
| "labels k [] = []"
| "labels k (t # ts) = label k t # labels (k + nodeCount t) ts"

fun store :: "node option \<Rightarrow> dtree \<Rightarrow> document \<Rightarrow> document" where
  "store p (DNode n ty nm v as ks) d =
     fold (store (Some n)) ks
       (d\<lparr>nodeType := (nodeType d)(n := ty),
          nodeName := (nodeName d)(n := nm),
          nodeValue := (nodeValue d)(n := v),
          attributes := (attributes d)(n := as),
          parentNode := (parentNode d)(n := p),
          childNodes := (childNodes d)(n := map nid ks)\<rparr>)"

definition emptyDocument :: document where
  "emptyDocument =
     \<lparr>nodeType = (\<lambda>n. ELEMENT_NODE), nodeName = (\<lambda>n. []), nodeValue = (\<lambda>n. []),
      attributes = (\<lambda>n. []), parentNode = (\<lambda>n. None), childNodes = (\<lambda>n. [])\<rparr>"

definition body :: node where
  "body = 0"

definition bodyTree :: "html list \<Rightarrow> dtree" where
  "bodyTree content = DNode body ELEMENT_NODE ''BODY'' [] [] (labels (Suc body) content)"

definition parseFromString :: "html list \<Rightarrow> document" where
  "parseFromString content = store None (bodyTree content) emptyDocument"

subsection \<open>The DOM calls the source makes\<close>

datatype dom_error = TypeError | NotFoundError

definition lowerChar :: "char \<Rightarrow> char" where
  "lowerChar c =
     (case map_of (zip ''ABCDEFGHIJKLMNOPQRSTUVWXYZ'' ''abcdefghijklmnopqrstuvwxyz'') c of
        Some l \<Rightarrow> l
      | None \<Rightarrow> c)"

text \<open>
  A string is the sequence of its UTF-8 bytes. \<^verbatim>\<open>String.prototype.toLowerCase\<close> follows the
  Unicode case mappings, not only those of ASCII. The source applies it to node names and
  compares the result with ASCII literals (the \<^verbatim>\<open>case\<close> labels, \<^verbatim>\<open>'a'\<close>, \<^verbatim>\<open>'input'\<close>), so what
  matters is which characters become an ASCII letter: the letters \<open>A\<close> to \<open>Z\<close>, and
  U+212A KELVIN SIGN, which becomes \<open>k\<close> (\<^verbatim>\<open>'LIN\u212A'.toLowerCase() === 'link'\<close>). Both are
  lowered here. Every other character outside ASCII has a lower-case form outside ASCII
  (U+0130 gives \<open>i\<close> followed by U+0307); its bytes are left as they are, so the lowered name
  still has a byte outside ASCII and every comparison of the source has the outcome it has in
  JavaScript.
\<close>

definition kelvinSign :: string where
  "kelvinSign = [CHR 0xE2, CHR 0x84, CHR 0xAA]"

fun toLowerCase :: "string \<Rightarrow> string" where
  "toLowerCase [] = []"
| "toLowerCase (c # cs) =
     (if take 3 (c # cs) = kelvinSign then CHR ''k'' # toLowerCase (drop 2 cs)
      else lowerChar c # toLowerCase cs)"

declare toLowerCase.simps [simp del]

definition startsWith :: "string \<Rightarrow> string \<Rightarrow> bool" where
  "startsWith s pre = (take (length pre) s = pre)"

definition getAttribute :: "document \<Rightarrow> node \<Rightarrow> string \<Rightarrow> string option" where
  "getAttribute d n name = map_of (attributes d n) name"

definition removeAttribute :: "node \<Rightarrow> string \<Rightarrow> document \<Rightarrow> document" where
  "removeAttribute n name d =
     d\<lparr>attributes := (attributes d)(n := filter (\<lambda>a. fst a \<noteq> name) (attributes d n))\<rparr>"

fun setAttr :: "string \<Rightarrow> string \<Rightarrow> attr list \<Rightarrow> attr list" where
  "setAttr name v [] = [(name, v)]"
| "setAttr name v (a # as) = (if fst a = name then (name, v) # as else a # setAttr name v as)"

definition setAttribute :: "node \<Rightarrow> string \<Rightarrow> string \<Rightarrow> document \<Rightarrow> document" where
  "setAttribute n name v d = d\<lparr>attributes := (attributes d)(n := setAttr name v (attributes d n))\<rparr>"

definition removeChild :: "node \<Rightarrow> node \<Rightarrow> document \<Rightarrow> dom_error + document" where
  "removeChild p c d =
     (if parentNode d c \<noteq> Some p then Inl NotFoundError
      else Inr (d\<lparr>childNodes := (childNodes d)(p := remove1 c (childNodes d p)),
                  parentNode := (parentNode d)(c := None)\<rparr>))"

fun insertInto :: "node \<Rightarrow> node \<Rightarrow> node list \<Rightarrow> node list" where
  "insertInto c r [] = []"
| "insertInto c r (x # xs) = (if x = r then c # x # xs else x # insertInto c r xs)"

definition insertBefore :: "node \<Rightarrow> node \<Rightarrow> node \<Rightarrow> document \<Rightarrow> dom_error + document" where
  "insertBefore p c r d =
     (if parentNode d r \<noteq> Some p then Inl NotFoundError
      else
        let d1 = (case parentNode d c of
                    None \<Rightarrow> d
                  | Some q \<Rightarrow> d\<lparr>childNodes := (childNodes d)(q := remove1 c (childNodes d q))\<rparr>)
        in Inr (d1\<lparr>childNodes := (childNodes d1)(p := insertInto c r (childNodes d1 p)),
                   parentNode := (parentNode d1)(c := Some p)\<rparr>))"

text \<open>
  \<^verbatim>\<open>while (walker.nextNode())\<close> visits the nodes below the root in document order. The loop
  body changes attributes only, so the order is the one the tree has when the walk starts.
  The fuel bounds the depth of the descent.
\<close>

fun treeWalker :: "nat \<Rightarrow> document \<Rightarrow> node \<Rightarrow> node list option" where
  "treeWalker 0 d root = None"
| "treeWalker (Suc k) d root =
     map_option concat
       (those (map (\<lambda>c. map_option (Cons c) (treeWalker k d c)) (childNodes d root)))"

fun outerHTML :: "nat \<Rightarrow> document \<Rightarrow> node \<Rightarrow> html option" where
  "outerHTML 0 d n = None"
| "outerHTML (Suc k) d n =
     (case nodeType d n of
        TEXT_NODE \<Rightarrow> Some (Text (nodeValue d n))
      | COMMENT_NODE \<Rightarrow> Some (Comment (nodeValue d n))
      | ELEMENT_NODE \<Rightarrow>
          map_option (Element (nodeName d n) (attributes d n))
            (those (map (outerHTML k d) (childNodes d n))))"

definition innerHTML :: "nat \<Rightarrow> document \<Rightarrow> node \<Rightarrow> html list option" where
  "innerHTML k d n = those (map (outerHTML k d) (childNodes d n))"

subsection \<open>The policy functions\<close>

text \<open>The case labels of the \<^verbatim>\<open>switch\<close> in \<^verbatim>\<open>isAllowedTag\<close> (lines 19--58).\<close>

definition allowedTags :: "string list" where
  "allowedTags =
     [''#text'', ''a'', ''article'', ''b'', ''br'', ''blockquote'', ''cite'',
      ''code'', ''dd'', ''del'', ''div'', ''dt'', ''em'', ''h1'', ''h2'', ''h3'', ''h4'',
      ''h5'', ''h6'', ''hr'', ''i'', ''img'', ''ins'', ''li'', ''ol'', ''p'', ''pre'', ''s'',
      ''span'', ''strong'', ''sub'', ''sup'', ''table'', ''tbody'', ''td'', ''th'',
      ''thead'', ''tr'', ''tt'', ''ul'']"

definition isAllowedTag :: "document \<Rightarrow> node \<Rightarrow> bool" where
  "isAllowedTag d n =
     (let tagName = toLowerCase (nodeName d n) in
      if ''input'' = tagName then Some ''checkbox'' = getAttribute d n ''type''
      else tagName \<in> set allowedTags)"

definition isAllowedAttr :: "string \<Rightarrow> string \<Rightarrow> bool" where
  "isAllowedAttr tagName attrName =
     (if tagName = ''a'' then attrName \<in> set [''alt'', ''href'', ''rel'', ''title'']
      else if tagName = ''img'' then attrName \<in> set [''alt'', ''src'', ''title'']
      else if tagName = ''input'' then attrName \<in> set [''checked'', ''type'']
      else False)"

text \<open>The case labels of the \<^verbatim>\<open>switch\<close> in \<^verbatim>\<open>isForbidden\<close> (lines 126--133).\<close>

definition forbiddenTags :: "string list" where
  "forbiddenTags =
     [''head'', ''html'', ''iframe'', ''link'', ''meta'', ''object'', ''script'', ''style'']"

definition isForbidden :: "document \<Rightarrow> node \<Rightarrow> bool" where
  "isForbidden d n = (toLowerCase (nodeName d n) \<in> set forbiddenTags)"

text \<open>
  Two simple validators, standing in for \<^verbatim>\<open>validUrl.isWebUri\<close> and \<^verbatim>\<open>isemail.validate\<close>
  where an example needs concrete ones. On the strings of the examples they answer as the
  libraries do.
\<close>

definition demoWebUri :: "string \<Rightarrow> bool" where
  "demoWebUri s = (startsWith s ''http://'' \<or> startsWith s ''https://'')"

definition demoEmail :: "string \<Rightarrow> bool" where
  "demoEmail s = (CHR ''@'' \<in> set s)"

subsection \<open>The walk and the two removal passes\<close>

text \<open>
  The callback of \<^verbatim>\<open>filter\<close> at lines 197--217 returns true for the attributes to remove.
\<close>

definition attrRejected :: "(string \<Rightarrow> bool) \<Rightarrow> (string \<Rightarrow> bool) \<Rightarrow> string \<Rightarrow> attr \<Rightarrow> bool" where
  "attrRejected W E tagName a =
     (let name = fst a; val = snd a in
      if isAllowedAttr tagName name then False
      else if (''href'' = name \<or> ''src'' = name) \<and> W val then False
      else if ''href'' = name \<and> startsWith val ''mailto:'' \<and> E (drop 7 val) then False
      else True)"

definition stripAttributes ::
  "(string \<Rightarrow> bool) \<Rightarrow> (string \<Rightarrow> bool) \<Rightarrow> node \<Rightarrow> document \<Rightarrow> document" where
  "stripAttributes W E n d =
     (let tagName = toLowerCase (nodeName d n) in
      fold (\<lambda>a. removeAttribute n (fst a)) (filter (attrRejected W E tagName) (attributes d n)) d)"

definition normalizeLink :: "node \<Rightarrow> document \<Rightarrow> document" where
  "normalizeLink n d =
     (let tagName = toLowerCase (nodeName d n) in
      if ''a'' = tagName then
        (case getAttribute d n ''href'' of
           None \<Rightarrow> d
         | Some hrefAttribute \<Rightarrow>
             if \<not> startsWith hrefAttribute ''mailto:''
             then setAttribute n ''rel'' ''external noopener noreferrer''
                    (setAttribute n ''target'' ''_blank'' d)
             else d)
      else d)"

text \<open>The state of the walk: the document, \<^verbatim>\<open>removeList\<close> and \<^verbatim>\<open>forbiddenList\<close>.\<close>

type_synonym walk_state = "document \<times> node list \<times> node list"

definition visitNode ::
  "(string \<Rightarrow> bool) \<Rightarrow> (string \<Rightarrow> bool) \<Rightarrow> node \<Rightarrow> walk_state \<Rightarrow> walk_state" where
  "visitNode W E n st =
     (case st of (d, removeList, forbiddenList) \<Rightarrow>
        if isForbidden d n then (d, removeList, forbiddenList @ [n])
        else if \<not> isAllowedTag d n then (d, removeList @ [n], forbiddenList)
        else (normalizeLink n (stripAttributes W E n d), removeList, forbiddenList))"

text \<open>
  The body of \<^verbatim>\<open>forbiddenList.forEach\<close>: the \<^verbatim>\<open>try\<close> block ends at the first exception, the
  empty \<^verbatim>\<open>catch\<close> leaves the document as it is at that point.
\<close>

definition eliminateNode :: "node \<Rightarrow> document \<Rightarrow> document" where
  "eliminateNode n d =
     (case parentNode d n of
        None \<Rightarrow> d
      | Some p \<Rightarrow> (case removeChild p n d of Inl e \<Rightarrow> d | Inr d' \<Rightarrow> d'))"

text \<open>
  The body of \<^verbatim>\<open>removeList.forEach\<close>. \<open>parent\<close> is read once, before the loop. Each turn of
  the \<^verbatim>\<open>while\<close> loop takes the first child that \<open>node\<close> has at that moment; the fuel counts the
  turns, and running out of it is the value \<open>None\<close>.
\<close>

fun unwrapLoop :: "nat \<Rightarrow> node option \<Rightarrow> node \<Rightarrow> document \<Rightarrow> document option" where
  "unwrapLoop 0 parent n d = None"
| "unwrapLoop (Suc k) parent n d =
     (case childNodes d n of
        child # rest \<Rightarrow>
          (case parent of
             None \<Rightarrow> Some d
           | Some p \<Rightarrow>
               (case insertBefore p child n d of
                  Inl e \<Rightarrow> Some d
                | Inr d' \<Rightarrow> unwrapLoop k parent n d'))
      | [] \<Rightarrow>
          (case parent of
             None \<Rightarrow> Some d
           | Some p \<Rightarrow> (case removeChild p n d of Inl e \<Rightarrow> Some d | Inr d' \<Rightarrow> Some d')))"

definition unwrapNode :: "node \<Rightarrow> document \<Rightarrow> document option" where
  "unwrapNode n d = unwrapLoop (Suc (length (childNodes d n))) (parentNode d n) n d"

fun forEachM :: "('a \<Rightarrow> 's \<Rightarrow> 's option) \<Rightarrow> 'a list \<Rightarrow> 's \<Rightarrow> 's option" where
  "forEachM f [] s = Some s"
| "forEachM f (x # xs) s = (case f x s of None \<Rightarrow> None | Some s' \<Rightarrow> forEachM f xs s')"

definition depthFuel :: "html list \<Rightarrow> nat" where
  "depthFuel content = Suc (Suc (sum_list (map nodeCount content)))"

definition walkDocument ::
  "(string \<Rightarrow> bool) \<Rightarrow> (string \<Rightarrow> bool) \<Rightarrow> html list \<Rightarrow> walk_state option" where
  "walkDocument W E content =
     (let doc = parseFromString content in
      case treeWalker (depthFuel content) doc body of
        None \<Rightarrow> None
      | Some nodes \<Rightarrow> Some (fold (visitNode W E) nodes (doc, [], [])))"

definition sanitizeDocument ::
  "(string \<Rightarrow> bool) \<Rightarrow> (string \<Rightarrow> bool) \<Rightarrow> html list \<Rightarrow> document option" where
  "sanitizeDocument W E content =
     (case walkDocument W E content of
        None \<Rightarrow> None
      | Some (doc, removeList, forbiddenList) \<Rightarrow>
          forEachM unwrapNode removeList (fold eliminateNode forbiddenList doc))"

definition sanitizeHtml ::
  "(string \<Rightarrow> bool) \<Rightarrow> (string \<Rightarrow> bool) \<Rightarrow> html list \<Rightarrow> html list option" where
  "sanitizeHtml W E content =
     (case sanitizeDocument W E content of
        None \<Rightarrow> None
      | Some doc \<Rightarrow> innerHTML (depthFuel content) doc body)"

text \<open>
  The exported function takes a string and returns a string (lines 146--148 and 265). With
  the parser (\<^verbatim>\<open>parseFromString\<close>, then the children of the body) and the serializer (the
  getter of \<^verbatim>\<open>innerHTML\<close>) as the parameters \<open>reader\<close> and \<open>printer\<close>, it is:
\<close>

definition sanitizeString ::
  "(string \<Rightarrow> html list) \<Rightarrow> (html list \<Rightarrow> string) \<Rightarrow>
   (string \<Rightarrow> bool) \<Rightarrow> (string \<Rightarrow> bool) \<Rightarrow> string \<Rightarrow> string option" where
  "sanitizeString reader printer W E content =
     map_option printer (sanitizeHtml W E (reader content))"

section \<open>Definitions for the proofs\<close>

text \<open>
  Attribute lists, labelled trees, the closed forms of the three passes, and what the
  statements of the claims need. The lemmas below relate each to the functions above.
\<close>

definition stripAttrs :: "(string \<Rightarrow> bool) \<Rightarrow> (string \<Rightarrow> bool) \<Rightarrow> string \<Rightarrow> attr list \<Rightarrow> attr list" where
  "stripAttrs W E tagName as =
     filter (\<lambda>b. fst b \<notin> fst ` set (filter (attrRejected W E tagName) as)) as"

definition normAttrs :: "string \<Rightarrow> attr list \<Rightarrow> attr list" where
  "normAttrs tagName as =
     (if ''a'' = tagName then
        (case map_of as ''href'' of
           None \<Rightarrow> as
         | Some h \<Rightarrow>
             if \<not> startsWith h ''mailto:''
             then setAttr ''rel'' ''external noopener noreferrer'' (setAttr ''target'' ''_blank'' as)
             else as)
      else as)"

definition visitAttrs :: "(string \<Rightarrow> bool) \<Rightarrow> (string \<Rightarrow> bool) \<Rightarrow> string \<Rightarrow> attr list \<Rightarrow> attr list" where
  "visitAttrs W E tagName as = normAttrs tagName (stripAttrs W E tagName as)"

definition forbiddenAt :: "document \<Rightarrow> node \<Rightarrow> bool" where
  "forbiddenAt d n = isForbidden d n"

definition unknownAt :: "document \<Rightarrow> node \<Rightarrow> bool" where
  "unknownAt d n = (\<not> isForbidden d n \<and> \<not> isAllowedTag d n)"

definition keptAt :: "document \<Rightarrow> node \<Rightarrow> bool" where
  "keptAt d n = (\<not> isForbidden d n \<and> isAllowedTag d n)"

definition visited :: "(string \<Rightarrow> bool) \<Rightarrow> (string \<Rightarrow> bool) \<Rightarrow> node set \<Rightarrow> document \<Rightarrow> document" where
  "visited W E S d =
     d\<lparr>attributes := (\<lambda>n. if n \<in> S \<and> keptAt d n
                           then visitAttrs W E (toLowerCase (nodeName d n)) (attributes d n)
                           else attributes d n)\<rparr>"

fun ids :: "dtree \<Rightarrow> node list" where
  "ids (DNode n ty nm v as ks) = n # concat (map ids ks)"

definition idsF :: "dtree list \<Rightarrow> node list" where
  "idsF ks = concat (map ids ks)"

fun holds :: "document \<Rightarrow> node option \<Rightarrow> dtree \<Rightarrow> bool" where
  "holds d p (DNode n ty nm v as ks) =
     (nodeType d n = ty \<and> nodeName d n = nm \<and> nodeValue d n = v \<and> attributes d n = as \<and>
      parentNode d n = p \<and> childNodes d n = map nid ks \<and> (\<forall>k \<in> set ks. holds d (Some n) k))"

definition sameAt :: "document \<Rightarrow> document \<Rightarrow> node \<Rightarrow> bool" where
  "sameAt d d' m =
     (nodeType d' m = nodeType d m \<and> nodeName d' m = nodeName d m \<and>
      nodeValue d' m = nodeValue d m \<and> attributes d' m = attributes d m \<and>
      parentNode d' m = parentNode d m \<and> childNodes d' m = childNodes d m)"

fun increasing :: "dtree \<Rightarrow> bool" where
  "increasing (DNode n ty nm v as ks) = (\<forall>k \<in> set ks. n < nid k \<and> increasing k)"

definition domOk :: "document \<Rightarrow> bool" where
  "domOk d =
     ((\<forall>n c. c \<in> set (childNodes d n) \<longrightarrow> parentNode d c = Some n) \<and>
      (\<forall>n. distinct (childNodes d n)) \<and>
      (\<forall>n p. parentNode d n = Some p \<longrightarrow> p < n \<and> n \<in> set (childNodes d p)))"

fun depth :: "dtree \<Rightarrow> nat" where
  "depth (DNode n ty nm v as ks) = Suc (Max (insert 0 (depth ` set ks)))"

fun erase :: "dtree \<Rightarrow> html" where
  "erase (DNode n ty nm v as ks) =
     (case ty of
        TEXT_NODE \<Rightarrow> Text v
      | COMMENT_NODE \<Rightarrow> Comment v
      | ELEMENT_NODE \<Rightarrow> Element nm as (map erase ks))"

text \<open>
  The tests of \<^verbatim>\<open>isForbidden\<close> and \<^verbatim>\<open>isAllowedTag\<close> on a node's name and attribute list.
\<close>

definition forbiddenName :: "string \<Rightarrow> bool" where
  "forbiddenName nm = (toLowerCase nm \<in> set forbiddenTags)"

definition allowedInfo :: "string \<Rightarrow> attr list \<Rightarrow> bool" where
  "allowedInfo nm as =
     (if ''input'' = toLowerCase nm then Some ''checkbox'' = map_of as ''type''
      else toLowerCase nm \<in> set allowedTags)"

definition keptInfo :: "string \<Rightarrow> attr list \<Rightarrow> bool" where
  "keptInfo nm as = (\<not> forbiddenName nm \<and> allowedInfo nm as)"

fun fixT :: "(string \<Rightarrow> bool) \<Rightarrow> (string \<Rightarrow> bool) \<Rightarrow> dtree \<Rightarrow> dtree" where
  "fixT W E (DNode n ty nm v as ks) =
     DNode n ty nm v (if keptInfo nm as then visitAttrs W E (toLowerCase nm) as else as)
       (map (fixT W E) ks)"

definition pruned :: "node set \<Rightarrow> document \<Rightarrow> document" where
  "pruned F d =
     d\<lparr>childNodes := (\<lambda>n. filter (\<lambda>c. c \<notin> F) (childNodes d n)),
       parentNode := (\<lambda>n. if n \<in> F then None else parentNode d n)\<rparr>"

fun pruneT :: "node set \<Rightarrow> dtree \<Rightarrow> dtree" where
  "pruneT F (DNode n ty nm v as ks) =
     DNode n ty nm v as (map (pruneT F) (filter (\<lambda>k. nid k \<notin> F) ks))"

fun splice :: "node \<Rightarrow> node list \<Rightarrow> node list \<Rightarrow> node list" where
  "splice u cs [] = []"
| "splice u cs (x # xs) = (if x = u then cs @ xs else x # splice u cs xs)"

definition spliced :: "node \<Rightarrow> node \<Rightarrow> node list \<Rightarrow> document \<Rightarrow> document" where
  "spliced p u cs d =
     d\<lparr>childNodes := (childNodes d)(u := [], p := splice u cs (childNodes d p)),
       parentNode := (\<lambda>n. if n = u then None else if n \<in> set cs then Some p else parentNode d n)\<rparr>"

definition unwrapped :: "node \<Rightarrow> document \<Rightarrow> document" where
  "unwrapped u d =
     (case parentNode d u of None \<Rightarrow> d | Some p \<Rightarrow> spliced p u (childNodes d u) d)"

fun unwT :: "node \<Rightarrow> dtree \<Rightarrow> dtree" where
  "unwT u (DNode n ty nm v as ks) =
     DNode n ty nm v as (concat (map (\<lambda>k. if nid k = u then kids k else [unwT u k]) ks))"

fun flatT :: "node set \<Rightarrow> dtree \<Rightarrow> dtree" where
  "flatT U (DNode n ty nm v as ks) =
     DNode n ty nm v as
       (concat (map (\<lambda>k. if nid k \<in> U then kids (flatT U k) else [flatT U k]) ks))"

definition flatF :: "node set \<Rightarrow> dtree list \<Rightarrow> dtree list" where
  "flatF U ks = concat (map (\<lambda>k. if nid k \<in> U then kids (flatT U k) else [flatT U k]) ks)"

fun cleanT :: "(string \<Rightarrow> bool) \<Rightarrow> (string \<Rightarrow> bool) \<Rightarrow> dtree \<Rightarrow> dtree list" where
  "cleanT W E (DNode n ty nm v as ks) =
     (if forbiddenName nm then []
      else if \<not> allowedInfo nm as then concat (map (cleanT W E) ks)
      else [DNode n ty nm v (visitAttrs W E (toLowerCase nm) as) (concat (map (cleanT W E) ks))])"

fun classified :: "node set \<Rightarrow> node set \<Rightarrow> dtree \<Rightarrow> bool" where
  "classified F U (DNode n ty nm v as ks) =
     ((n \<in> F \<longleftrightarrow> forbiddenName nm) \<and>
      (n \<in> U \<longleftrightarrow> \<not> forbiddenName nm \<and> \<not> allowedInfo nm as) \<and>
      (\<forall>k \<in> set ks. classified F U k))"

definition walkOrder :: "html list \<Rightarrow> node list" where
  "walkOrder content = [Suc 0..<Suc (sum_list (map nodeCount content))]"

definition resultTree :: "(string \<Rightarrow> bool) \<Rightarrow> (string \<Rightarrow> bool) \<Rightarrow> html list \<Rightarrow> dtree" where
  "resultTree W E content =
     DNode body ELEMENT_NODE ''BODY'' [] []
       (concat (map (cleanT W E) (labels (Suc body) content)))"

fun sanitizeTree :: "(string \<Rightarrow> bool) \<Rightarrow> (string \<Rightarrow> bool) \<Rightarrow> html \<Rightarrow> html list" where
  "sanitizeTree W E (Element nm as cs) =
     (if forbiddenName nm then []
      else if \<not> allowedInfo nm as then concat (map (sanitizeTree W E) cs)
      else [Element nm (visitAttrs W E (toLowerCase nm) as) (concat (map (sanitizeTree W E) cs))])"
| "sanitizeTree W E (Text s) = [Text s]"
| "sanitizeTree W E (Comment s) = []"

definition sanitizeForest :: "(string \<Rightarrow> bool) \<Rightarrow> (string \<Rightarrow> bool) \<Rightarrow> html list \<Rightarrow> html list" where
  "sanitizeForest W E ts = concat (map (sanitizeTree W E) ts)"

text \<open>
  A frame is an element with a hole among its children: the siblings before the hole, the
  element's name and attributes, the siblings after. \<open>plug c ts\<close> puts the forest \<open>ts\<close> into
  the hole of the innermost frame of \<open>c\<close>, so \<open>ts\<close> can stand at any depth.
\<close>

type_synonym frame = "html list \<times> string \<times> attr list \<times> html list"

fun plug :: "frame list \<Rightarrow> html list \<Rightarrow> html list" where
  "plug [] ts = ts"
| "plug ((pre, nm, as, post) # c) ts = pre @ [Element nm as (plug c ts)] @ post"

text \<open>\<open>allElements P t\<close>: every element of the tree \<open>t\<close> satisfies \<open>P\<close>.\<close>

fun allElements :: "(string \<Rightarrow> attr list \<Rightarrow> bool) \<Rightarrow> html \<Rightarrow> bool" where
  "allElements P (Element nm as cs) = (P nm as \<and> (\<forall>c \<in> set cs. allElements P c))"
| "allElements P (Text s) = True"
| "allElements P (Comment s) = True"

definition walkedTree :: "(string \<Rightarrow> bool) \<Rightarrow> (string \<Rightarrow> bool) \<Rightarrow> html list \<Rightarrow> dtree" where
  "walkedTree W E content =
     DNode body ELEMENT_NODE ''BODY'' [] [] (map (fixT W E) (labels (Suc body) content))"

text \<open>
  An attribute list, and a tree, with the attributes named \<open>target\<close> moved to the end of
  each attribute list. Nothing else changes.
\<close>

definition targetLast :: "attr list \<Rightarrow> attr list" where
  "targetLast as =
     filter (\<lambda>a. fst a \<noteq> ''target'') as @ filter (\<lambda>a. fst a = ''target'') as"

fun retarget :: "html \<Rightarrow> html" where
  "retarget (Element nm as cs) = Element nm (targetLast as) (map retarget cs)"
| "retarget (Text s) = Text s"
| "retarget (Comment s) = Comment s"

text \<open>
  What an HTML parser and the getter of \<^verbatim>\<open>innerHTML\<close> answer on the strings and trees of
  the examples for \<open>sanitizeString\<close>.
\<close>

definition demoReader :: "string \<Rightarrow> html list" where
  "demoReader s =
     (if s = ''<a href=\"https://example.com\">x</a>'' then
        [Element ''A'' [(''href'', ''https://example.com'')] [Text ''x'']]
      else if s = ''<a href=\"https://example.com\" target=\"_blank\" rel=\"external noopener noreferrer\">x</a>'' then
        [Element ''A'' [(''href'', ''https://example.com''), (''target'', ''_blank''),
                        (''rel'', ''external noopener noreferrer'')] [Text ''x'']]
      else if s = ''<p><marquee><div>x</div></marquee></p>'' then
        [Element ''P'' [] [Element ''MARQUEE'' [] [Element ''DIV'' [] [Text ''x'']]]]
      else if s = ''<p><div>x</div></p>'' then
        [Element ''P'' [] [], Element ''DIV'' [] [Text ''x''], Element ''P'' [] []]
      else [])"

definition demoPrinter :: "html list \<Rightarrow> string" where
  "demoPrinter ts =
     (if ts = [Element ''A'' [(''href'', ''https://example.com''), (''target'', ''_blank''),
                              (''rel'', ''external noopener noreferrer'')] [Text ''x'']] then
        ''<a href=\"https://example.com\" target=\"_blank\" rel=\"external noopener noreferrer\">x</a>''
      else if ts = [Element ''A'' [(''href'', ''https://example.com''),
                                   (''rel'', ''external noopener noreferrer''),
                                   (''target'', ''_blank'')] [Text ''x'']] then
        ''<a href=\"https://example.com\" rel=\"external noopener noreferrer\" target=\"_blank\">x</a>''
      else if ts = [Element ''P'' [] [Element ''DIV'' [] [Text ''x'']]] then
        ''<p><div>x</div></p>''
      else if ts = [Element ''P'' [] [], Element ''DIV'' [] [Text ''x''], Element ''P'' [] []] then
        ''<p></p><div>x</div><p></p>''
      else [])"

section \<open>Lemmas\<close>

subsection \<open>Attribute lists\<close>

lemma fold_removeAttribute:
  "fold (\<lambda>a. removeAttribute n (fst a)) xs d =
     d\<lparr>attributes := (attributes d)(n := filter (\<lambda>b. fst b \<notin> fst ` set xs) (attributes d n))\<rparr>"
proof (induction xs arbitrary: d)
  case Nil
  show ?case by simp
next
  case (Cons x xs)
  have "fold (\<lambda>a. removeAttribute n (fst a)) (x # xs) d =
        fold (\<lambda>a. removeAttribute n (fst a)) xs (removeAttribute n (fst x) d)"
    by simp
  also have "\<dots> = d\<lparr>attributes := (attributes d)(n := filter (\<lambda>b. fst b \<notin> fst ` set (x # xs)) (attributes d n))\<rparr>"
    unfolding Cons.IH by (simp add: removeAttribute_def conj_commute)
  finally show ?case .
qed

lemma stripAttributes_eq:
  "stripAttributes W E n d =
     d\<lparr>attributes := (attributes d)(n := stripAttrs W E (toLowerCase (nodeName d n)) (attributes d n))\<rparr>"
  by (simp add: stripAttributes_def stripAttrs_def fold_removeAttribute Let_def)

lemma normalizeLink_eq:
  "normalizeLink n d =
     d\<lparr>attributes := (attributes d)(n := normAttrs (toLowerCase (nodeName d n)) (attributes d n))\<rparr>"
  by (simp add: normalizeLink_def normAttrs_def getAttribute_def setAttribute_def Let_def
      split: option.splits)

lemma visitNode_kept:
  "keptAt d n \<Longrightarrow> visitNode W E n (d, rl, fl) = (visited W E {n} d, rl, fl)"
  by (auto simp: visitNode_def keptAt_def visited_def stripAttributes_eq normalizeLink_eq
      visitAttrs_def fun_eq_iff intro!: document.equality)

lemma visited_class [simp]:
  "n \<notin> S \<Longrightarrow> isForbidden (visited W E S d) n = isForbidden d n"
  "n \<notin> S \<Longrightarrow> isAllowedTag (visited W E S d) n = isAllowedTag d n"
  "isForbidden (visited W E S d) m = isForbidden d m"
  by (simp_all add: visited_def isForbidden_def isAllowedTag_def getAttribute_def)

lemma visited_class1:
  "m \<noteq> n \<Longrightarrow> isAllowedTag (visited W E {n} d) m = isAllowedTag d m"
  by simp

lemma visited_visited:
  "n \<notin> S \<Longrightarrow> keptAt d n \<Longrightarrow> visited W E S (visited W E {n} d) = visited W E (insert n S) d"
  by (auto simp: visited_def keptAt_def isForbidden_def isAllowedTag_def getAttribute_def fun_eq_iff
      intro!: document.equality)

lemma visited_skip:
  "\<not> keptAt d n \<Longrightarrow> visited W E (insert n S) d = visited W E S d"
  by (auto simp: visited_def fun_eq_iff intro!: document.equality)

lemma fold_visitNode:
  "distinct ns \<Longrightarrow>
   fold (visitNode W E) ns (d, rl, fl) =
     (visited W E (set ns) d, rl @ filter (unknownAt d) ns, fl @ filter (forbiddenAt d) ns)"
proof (induction ns arbitrary: d rl fl)
  case Nil
  show ?case by (simp add: visited_def)
next
  case (Cons n ns)
  then have n: "n \<notin> set ns" and dist: "distinct ns" by simp_all
  show ?case
  proof (cases "keptAt d n")
    case True
    have "x \<noteq> n" if "x \<in> set ns" for x
      using n that by auto
    then have "\<And>x. x \<in> set ns \<Longrightarrow> unknownAt (visited W E {n} d) x = unknownAt d x"
      by (simp add: unknownAt_def visited_class1)
    then have cls1: "filter (unknownAt (visited W E {n} d)) ns = filter (unknownAt d) ns"
      by (intro filter_cong) simp_all
    have cls2: "filter (forbiddenAt (visited W E {n} d)) ns = filter (forbiddenAt d) ns"
      by (intro filter_cong) (simp_all add: forbiddenAt_def)
    note cls = cls1 cls2
    from True have "\<not> unknownAt d n" "\<not> forbiddenAt d n"
      by (auto simp: keptAt_def unknownAt_def forbiddenAt_def)
    then show ?thesis
      using True n by (simp add: visitNode_kept Cons.IH [OF dist] cls visited_visited)
  next
    case False
    then have v: "visitNode W E n (d, rl, fl) =
        (if isForbidden d n then (d, rl, fl @ [n]) else (d, rl @ [n], fl))"
      by (auto simp: visitNode_def keptAt_def)
    show ?thesis
      using False by (auto simp: v Cons.IH [OF dist] visited_skip unknownAt_def forbiddenAt_def keptAt_def)
  qed
qed

subsection \<open>Labelled trees held by a document\<close>

lemma sameAt_refl [simp]: "sameAt d d m"
  by (simp add: sameAt_def)

lemma sameAt_trans: "sameAt d d' m \<Longrightarrow> sameAt d' d'' m \<Longrightarrow> sameAt d d'' m"
  by (simp add: sameAt_def)

lemma nid_in_ids [simp]: "nid t \<in> set (ids t)"
  by (cases t) simp

lemma ids_eq: "ids t = nid t # idsF (kids t)"
  by (cases t) (simp add: idsF_def)

lemma idsF_simps [simp]:
  "idsF [] = []"
  "idsF (k # ks) = ids k @ idsF ks"
  "idsF (xs @ ys) = idsF xs @ idsF ys"
  by (simp_all add: idsF_def)

lemma in_idsF: "m \<in> set (idsF ks) \<longleftrightarrow> (\<exists>k \<in> set ks. m \<in> set (ids k))"
  by (auto simp: idsF_def)

text \<open>Only the root's parent and the fields of the tree's own nodes matter.\<close>

lemma holds_frame:
  "holds d p t \<Longrightarrow> (\<And>m. m \<in> set (ids t) \<Longrightarrow> sameAt d d' m) \<Longrightarrow> holds d' p t"
proof (induction t arbitrary: p)
  case (DNode n ty nm v as ks)
  have root: "sameAt d d' n" using DNode.prems(2) by simp
  have "holds d' (Some n) k" if "k \<in> set ks" for k
  proof (rule DNode.IH [OF that])
    show "holds d (Some n) k" using DNode.prems(1) that by simp
    fix m assume "m \<in> set (ids k)"
    then show "sameAt d d' m" using DNode.prems(2) that by auto
  qed
  then show ?case using DNode.prems(1) root by (simp add: sameAt_def)
qed

lemma holds_reparent:
  assumes "holds d p t"
    and "\<And>m. m \<in> set (idsF (kids t)) \<Longrightarrow> sameAt d d' m"
    and "nodeType d' (nid t) = nodeType d (nid t)" "nodeName d' (nid t) = nodeName d (nid t)"
      "nodeValue d' (nid t) = nodeValue d (nid t)" "attributes d' (nid t) = attributes d (nid t)"
      "childNodes d' (nid t) = childNodes d (nid t)"
  shows "holds d' (parentNode d' (nid t)) t"
proof (cases t)
  case (DNode n ty nm v as ks)
  have "holds d' (Some n) k" if "k \<in> set ks" for k
  proof (rule holds_frame)
    show "holds d (Some n) k" using assms(1) DNode that by simp
    fix m assume "m \<in> set (ids k)"
    then show "sameAt d d' m" using assms(2) DNode that by (auto simp: in_idsF)
  qed
  then show ?thesis using assms DNode by simp
qed

lemma holds_children:
  "holds d p t \<Longrightarrow> n \<in> set (ids t) \<Longrightarrow> c \<in> set (childNodes d n) \<Longrightarrow>
   parentNode d c = Some n \<and> c \<in> set (idsF (kids t))"
proof (induction t arbitrary: p)
  case (DNode r ty nm v as ks)
  show ?case
  proof (cases "n = r")
    case True
    then obtain k where k: "k \<in> set ks" "c = nid k"
      using DNode.prems by auto
    then have "holds d (Some r) k" using DNode.prems by simp
    then have "parentNode d (nid k) = Some r" by (cases k) simp
    moreover have "nid k \<in> set (idsF ks)"
      unfolding in_idsF using k(1) nid_in_ids by blast
    ultimately show ?thesis using True k by simp
  next
    case False
    then obtain k where k: "k \<in> set ks" "n \<in> set (ids k)"
      using DNode.prems by auto
    then have "holds d (Some r) k" using DNode.prems by simp
    from DNode.IH [OF k(1) this k(2) DNode.prems(3)]
    have "parentNode d c = Some n" "c \<in> set (ids k)"
      by (simp_all add: ids_eq [of k])
    then show ?thesis using k(1) unfolding in_idsF by auto
  qed
qed

lemma holds_parent:
  "holds d p t \<Longrightarrow> m \<in> set (idsF (kids t)) \<Longrightarrow>
   \<exists>q \<in> set (ids t). parentNode d m = Some q \<and> m \<in> set (childNodes d q)"
proof (induction t arbitrary: p)
  case (DNode r ty nm v as ks)
  then obtain k where k: "k \<in> set ks" "m \<in> set (ids k)"
    by (auto simp: in_idsF)
  then have hk: "holds d (Some r) k" using DNode.prems by simp
  show ?case
  proof (cases "m = nid k")
    case True
    have "parentNode d (nid k) = Some r" using hk by (cases k) simp
    moreover have "nid k \<in> set (childNodes d r)" using DNode.prems(1) k(1) by simp
    ultimately show ?thesis using True by simp
  next
    case False
    then have "m \<in> set (idsF (kids k))" using k(2) by (simp add: ids_eq [of k])
    from DNode.IH [OF k(1) hk this] show ?thesis using k(1) by auto
  qed
qed

lemma holds_root_parent: "holds d p t \<Longrightarrow> parentNode d (nid t) = p"
  by (cases t) simp

lemma holds_root_children: "holds d p t \<Longrightarrow> childNodes d (nid t) = map nid (kids t)"
  by (cases t) simp

lemma holds_kid: "holds d p t \<Longrightarrow> k \<in> set (kids t) \<Longrightarrow> holds d (Some (nid t)) k"
  by (cases t) simp

lemma distinct_idsF_kid: "distinct (idsF ks) \<Longrightarrow> k \<in> set ks \<Longrightarrow> distinct (ids k)"
  by (induction ks) auto

subsection \<open>Storing a labelled tree\<close>

lemma store_frame:
  "m \<notin> set (ids t) \<Longrightarrow> sameAt d (store p t d) m"
proof (induction t arbitrary: p d)
  case (DNode n ty nm v as ks)
  define d0 where "d0 = d\<lparr>nodeType := (nodeType d)(n := ty),
          nodeName := (nodeName d)(n := nm),
          nodeValue := (nodeValue d)(n := v),
          attributes := (attributes d)(n := as),
          parentNode := (parentNode d)(n := p),
          childNodes := (childNodes d)(n := map nid ks)\<rparr>"
  have a: "sameAt d d0 m" using DNode.prems by (simp add: d0_def sameAt_def)
  have "\<forall>k \<in> set js. m \<notin> set (ids k) \<Longrightarrow> set js \<subseteq> set ks \<Longrightarrow>
        sameAt e (fold (store (Some n)) js e) m" for js e
  proof (induction js arbitrary: e)
    case Nil
    show ?case by simp
  next
    case (Cons j js)
    have "sameAt e (store (Some n) j e) m"
      using Cons.prems by (intro DNode.IH) auto
    moreover have "sameAt (store (Some n) j e) (fold (store (Some n)) js (store (Some n) j e)) m"
      using Cons.prems by (intro Cons.IH) auto
    ultimately show ?case by (auto intro: sameAt_trans)
  qed
  from this [of ks d0] have "sameAt d0 (fold (store (Some n)) ks d0) m"
    using DNode.prems by auto
  with a show ?case by (auto simp: d0_def [symmetric] intro: sameAt_trans)
qed

lemma fold_store_frame:
  "m \<notin> set (idsF ks) \<Longrightarrow> sameAt d (fold (store q) ks d) m"
proof (induction ks arbitrary: d)
  case Nil
  show ?case by simp
next
  case (Cons k ks)
  have "sameAt d (store q k d) m" using Cons.prems by (intro store_frame) simp
  moreover have "sameAt (store q k d) (fold (store q) ks (store q k d)) m"
    using Cons.prems by (intro Cons.IH) simp
  ultimately show ?case by (auto intro: sameAt_trans)
qed

lemma fold_store_holds:
  assumes "\<And>k e. k \<in> set ks \<Longrightarrow> holds (store q k e) q k"
    and "distinct (idsF ks)"
  shows "\<forall>k \<in> set ks. holds (fold (store q) ks d) q k"
  using assms
proof (induction ks arbitrary: d rule: rev_induct)
  case Nil
  show ?case by simp
next
  case (snoc j js)
  let ?e = "fold (store q) js d"
  have last: "holds (store q j ?e) q j" using snoc.prems(1) by simp
  have "holds (store q j ?e) q k" if "k \<in> set js" for k
  proof (rule holds_frame)
    show "holds ?e q k" using snoc.IH [of d] snoc.prems that by auto
    fix m assume "m \<in> set (ids k)"
    then have "m \<in> set (idsF js)" using that by (auto simp: in_idsF)
    then have "m \<notin> set (ids j)" using snoc.prems(2) by auto
    then show "sameAt ?e (store q j ?e) m" by (rule store_frame)
  qed
  with last show ?case by auto
qed

lemma store_holds:
  "distinct (ids t) \<Longrightarrow> holds (store p t d) p t"
proof (induction t arbitrary: p d)
  case (DNode n ty nm v as ks)
  define d0 where "d0 = d\<lparr>nodeType := (nodeType d)(n := ty),
          nodeName := (nodeName d)(n := nm),
          nodeValue := (nodeValue d)(n := v),
          attributes := (attributes d)(n := as),
          parentNode := (parentNode d)(n := p),
          childNodes := (childNodes d)(n := map nid ks)\<rparr>"
  have st: "store p (DNode n ty nm v as ks) d = fold (store (Some n)) ks d0"
    by (simp add: d0_def)
  have dist: "distinct (idsF ks)" "n \<notin> set (idsF ks)"
    using DNode.prems by (simp_all add: idsF_def)
  have "distinct (ids k)" if "k \<in> set ks" for k
    using dist(1) that by (rule distinct_idsF_kid)
  then have kid: "\<And>k e. k \<in> set ks \<Longrightarrow> holds (store (Some n) k e) (Some n) k"
    by (intro DNode.IH) auto
  have kids: "\<forall>k \<in> set ks. holds (fold (store (Some n)) ks d0) (Some n) k"
    using kid dist(1) by (rule fold_store_holds)
  have "sameAt d0 (fold (store (Some n)) ks d0) n"
    using dist(2) by (rule fold_store_frame)
  then show ?case
    unfolding st using kids by (simp add: sameAt_def d0_def)
qed

lemma nid_label [simp]: "nid (label k t) = k"
  by (cases t) simp_all

lemma upt_cons_add: "[k..<k + Suc n] = k # [Suc k..<Suc k + n]"
proof -
  have "k < k + Suc n" by simp
  then have "[k..<k + Suc n] = k # [Suc k..<k + Suc n]" by (rule upt_conv_Cons)
  moreover have "k + Suc n = Suc k + n" by simp
  ultimately show ?thesis by (simp only:)
qed

lemma upt_one: "[k..<k + 1] = [k]"
  by simp

lemma ids_label_labels:
  "ids (label k t) = [k..<k + nodeCount t]"
  "idsF (labels k ts) = [k..<k + sum_list (map nodeCount ts)]"
proof (induction k t and k ts rule: label_labels.induct)
  case (1 k nm as cs)
  have "ids (label k (Element nm as cs)) = k # idsF (labels (Suc k) cs)"
    by (simp add: idsF_def)
  also have "\<dots> = k # [Suc k..<Suc k + sum_list (map nodeCount cs)]"
    by (simp only: 1)
  also have "\<dots> = [k..<k + Suc (sum_list (map nodeCount cs))]"
    by (rule upt_cons_add [symmetric])
  finally show ?case by (simp only: nodeCount.simps)
next
  case (2 k s)
  show ?case by simp
next
  case (3 k s)
  show ?case by simp
next
  case (4 k)
  show ?case by simp
next
  case (5 k t ts)
  have "idsF (labels k (t # ts)) = ids (label k t) @ idsF (labels (k + nodeCount t) ts)"
    by simp
  also have "\<dots> = [k..<k + nodeCount t] @
      [k + nodeCount t..<k + nodeCount t + sum_list (map nodeCount ts)]"
    by (simp only: 5)
  also have "\<dots> = [k..<k + nodeCount t + sum_list (map nodeCount ts)]"
    by (rule upt_add_eq_append [symmetric]) simp
  finally show ?case by (simp only: list.map sum_list.Cons add.assoc)
qed

lemma labels_nid_ge: "x \<in> set (labels k ts) \<Longrightarrow> k \<le> nid x"
proof (induction ts arbitrary: k)
  case Nil
  then show ?case by simp
next
  case (Cons t ts)
  from Cons.prems have "x = label k t \<or> x \<in> set (labels (k + nodeCount t) ts)" by simp
  then show ?case
  proof
    assume "x = label k t"
    then show ?thesis by simp
  next
    assume "x \<in> set (labels (k + nodeCount t) ts)"
    then have "k + nodeCount t \<le> nid x" by (rule Cons.IH)
    then show ?thesis by simp
  qed
qed

lemma increasing_label_labels:
  "increasing (label k t)"
  "\<forall>x \<in> set (labels k ts). increasing x"
proof (induction k t and k ts rule: label_labels.induct)
  case (1 k nm as cs)
  then show ?case using labels_nid_ge [of _ "Suc k" cs] by fastforce
qed simp_all

lemma distinct_nids: "distinct (idsF ks) \<Longrightarrow> distinct (map nid ks)"
proof (induction ks)
  case Nil
  show ?case by simp
next
  case (Cons k ks)
  have "nid k \<notin> nid ` set ks"
  proof
    assume "nid k \<in> nid ` set ks"
    then obtain j where "j \<in> set ks" "nid j = nid k" by auto
    then have "nid k \<in> set (idsF ks)" unfolding in_idsF using nid_in_ids by metis
    moreover have "set (ids k) \<inter> set (idsF ks) = {}" using Cons.prems by simp
    ultimately show False using nid_in_ids [of k] by blast
  qed
  then show ?case using Cons by simp
qed

subsection \<open>The invariant of the document\<close>

lemma holds_distinct_children:
  "holds d p t \<Longrightarrow> distinct (ids t) \<Longrightarrow> n \<in> set (ids t) \<Longrightarrow> distinct (childNodes d n)"
proof (induction t arbitrary: p)
  case (DNode r ty nm v as ks)
  have dist: "distinct (idsF ks)" using DNode.prems(2) by (simp add: idsF_def)
  show ?case
  proof (cases "n = r")
    case True
    then show ?thesis using DNode.prems(1) distinct_nids [OF dist] by simp
  next
    case False
    then obtain k where k: "k \<in> set ks" "n \<in> set (ids k)"
      using DNode.prems by auto
    have hk: "holds d (Some r) k" using DNode.prems(1) k(1) by simp
    show ?thesis
      by (rule DNode.IH [OF k(1) hk distinct_idsF_kid [OF dist k(1)] k(2)])
  qed
qed

lemma holds_increasing:
  "holds d p t \<Longrightarrow> increasing t \<Longrightarrow> n \<in> set (ids t) \<Longrightarrow> c \<in> set (childNodes d n) \<Longrightarrow> n < c"
proof (induction t arbitrary: p)
  case (DNode r ty nm v as ks)
  show ?case
  proof (cases "n = r")
    case True
    then show ?thesis using DNode.prems by auto
  next
    case False
    then obtain k where k: "k \<in> set ks" "n \<in> set (ids k)"
      using DNode.prems by auto
    have hk: "holds d (Some r) k" "increasing k" using DNode.prems(1,2) k(1) by simp_all
    show ?thesis
      by (rule DNode.IH [OF k(1) hk k(2) DNode.prems(4)])
  qed
qed

lemma domOk_holds:
  assumes h: "holds d None t" and dist: "distinct (ids t)" and inc: "increasing t"
    and out: "\<And>m. m \<notin> set (ids t) \<Longrightarrow> parentNode d m = None \<and> childNodes d m = []"
  shows "domOk d"
proof -
  have c1: "parentNode d c = Some n" if "c \<in> set (childNodes d n)" for n c
  proof -
    have "n \<in> set (ids t)"
    proof (rule ccontr)
      assume "n \<notin> set (ids t)"
      then have "childNodes d n = []" using out by simp
      then show False using that by simp
    qed
    then show ?thesis using holds_children [OF h _ that] by simp
  qed
  have c2: "distinct (childNodes d n)" for n
  proof (cases "n \<in> set (ids t)")
    case True
    then show ?thesis using holds_distinct_children [OF h dist] by simp
  next
    case False
    then show ?thesis using out by simp
  qed
  have c3: "p < n \<and> n \<in> set (childNodes d p)" if "parentNode d n = Some p" for n p
  proof -
    have "n \<in> set (ids t)"
    proof (rule ccontr)
      assume "n \<notin> set (ids t)"
      then have "parentNode d n = None" using out by simp
      then show False using that by simp
    qed
    moreover have "n \<noteq> nid t" using holds_root_parent [OF h] that by auto
    ultimately have "n \<in> set (idsF (kids t))" by (simp add: ids_eq [of t])
    from holds_parent [OF h this] obtain q where q: "q \<in> set (ids t)"
      "parentNode d n = Some q" "n \<in> set (childNodes d q)" by auto
    then have "q = p" using that by simp
    then show ?thesis using q holds_increasing [OF h inc q(1) q(3)] by simp
  qed
  show ?thesis unfolding domOk_def using c1 c2 c3 by blast
qed

lemma ids_bodyTree:
  "ids (bodyTree content) = [0..<Suc (sum_list (map nodeCount content))]"
proof -
  have "[0..<Suc (sum_list (map nodeCount content))] =
        0 # [Suc 0..<Suc 0 + sum_list (map nodeCount content)]"
    by (simp add: upt_conv_Cons del: upt_Suc)
  moreover have "ids (bodyTree content) = 0 # idsF (labels (Suc 0) content)"
    by (simp add: bodyTree_def body_def idsF_def)
  ultimately show ?thesis by (simp only: ids_label_labels)
qed

lemma distinct_ids_bodyTree: "distinct (ids (bodyTree content))"
  unfolding ids_bodyTree by (rule distinct_upt)

lemma increasing_bodyTree: "increasing (bodyTree content)"
  using increasing_label_labels(2) [of "Suc body" content] labels_nid_ge [of _ "Suc body" content]
  by (fastforce simp: bodyTree_def)

lemma parse_holds: "holds (parseFromString content) None (bodyTree content)"
  unfolding parseFromString_def by (rule store_holds [OF distinct_ids_bodyTree])

lemma parse_domOk: "domOk (parseFromString content)"
proof (rule domOk_holds [OF parse_holds distinct_ids_bodyTree increasing_bodyTree])
  fix m assume "m \<notin> set (ids (bodyTree content))"
  then have "sameAt emptyDocument (parseFromString content) m"
    unfolding parseFromString_def by (rule store_frame)
  then show "parentNode (parseFromString content) m = None \<and> childNodes (parseFromString content) m = []"
    by (simp add: sameAt_def emptyDocument_def)
qed

subsection \<open>Walking and reading a held tree\<close>

lemma depth_kid: "k \<in> set (kids t) \<Longrightarrow> depth k < depth t"
  by (cases t) (simp add: less_Suc_eq_le)

lemma depth_le_ids: "depth t \<le> length (ids t)"
proof (induction t)
  case (DNode n ty nm v as ks)
  have "depth k \<le> length (concat (map ids ks))" if "k \<in> set ks" for k
  proof -
    have "length (ids k) \<le> sum_list (map (length \<circ> ids) ks)"
      using that member_le_sum_list [of "length (ids k)" "map (length \<circ> ids) ks"] by force
    then show ?thesis using DNode.IH [OF that] by (simp add: length_concat comp_def)
  qed
  then show ?case by auto
qed

lemma those_Some: "those (map Some xs) = Some xs"
  by (induction xs) simp_all

lemma those_map_Some: "(\<And>x. x \<in> set xs \<Longrightarrow> f x = Some (g x)) \<Longrightarrow> those (map f xs) = Some (map g xs)"
  by (induction xs) simp_all

lemma treeWalker_holds:
  "holds d p t \<Longrightarrow> depth t \<le> fuel \<Longrightarrow> treeWalker fuel d (nid t) = Some (idsF (kids t))"
proof (induction fuel arbitrary: t p)
  case 0
  then show ?case by (cases t) simp
next
  case (Suc fuel)
  have "map_option (Cons (nid k)) (treeWalker fuel d (nid k)) = Some (ids k)"
    if "k \<in> set (kids t)" for k
  proof -
    have "depth k \<le> fuel" using depth_kid [OF that] Suc.prems(2) by simp
    from Suc.IH [OF holds_kid [OF Suc.prems(1) that] this]
    show ?thesis by (simp add: ids_eq [of k])
  qed
  then have "those (map (\<lambda>k. map_option (Cons (nid k)) (treeWalker fuel d (nid k))) (kids t))
      = Some (map ids (kids t))"
    by (rule those_map_Some)
  then show ?case
    by (simp add: holds_root_children [OF Suc.prems(1)] comp_def idsF_def)
qed

lemma erase_label_labels:
  "erase (label k t) = t"
  "map erase (labels k ts) = ts"
  by (induction k t and k ts rule: label_labels.induct) simp_all

lemma outerHTML_holds:
  "holds d p t \<Longrightarrow> depth t \<le> fuel \<Longrightarrow> outerHTML fuel d (nid t) = Some (erase t)"
proof (induction fuel arbitrary: t p)
  case 0
  then show ?case by (cases t) simp
next
  case (Suc fuel)
  obtain n ty nm v as ks where t: "t = DNode n ty nm v as ks" by (cases t)
  have "outerHTML fuel d (nid k) = Some (erase k)" if "k \<in> set ks" for k
  proof -
    have "depth k \<le> fuel" using depth_kid [of k t] that Suc.prems(2) t by simp
    from Suc.IH [OF holds_kid [OF Suc.prems(1)] this] that t show ?thesis by simp
  qed
  then have "those (map (\<lambda>k. outerHTML fuel d (nid k)) ks) = Some (map erase ks)"
    by (rule those_map_Some)
  then show ?case
    using Suc.prems(1) by (simp add: t comp_def split: node_type.splits)
qed

lemma innerHTML_holds:
  assumes "holds d p t" and "depth t \<le> fuel"
  shows "innerHTML fuel d (nid t) = Some (map erase (kids t))"
proof -
  have "outerHTML fuel d (nid k) = Some (erase k)" if "k \<in> set (kids t)" for k
  proof (rule outerHTML_holds [OF holds_kid [OF assms(1) that]])
    show "depth k \<le> fuel" using depth_kid [OF that] assms(2) by simp
  qed
  then have "those (map (\<lambda>k. outerHTML fuel d (nid k)) (kids t)) = Some (map erase (kids t))"
    by (rule those_map_Some)
  then show ?thesis
    by (simp add: innerHTML_def holds_root_children [OF assms(1)] comp_def)
qed

subsection \<open>The document after the walk\<close>

lemma isForbidden_name: "isForbidden d n = forbiddenName (nodeName d n)"
  by (simp add: isForbidden_def forbiddenName_def)

lemma isAllowedTag_info: "isAllowedTag d n = allowedInfo (nodeName d n) (attributes d n)"
  by (simp add: isAllowedTag_def allowedInfo_def getAttribute_def Let_def)

lemma keptAt_info: "keptAt d n = keptInfo (nodeName d n) (attributes d n)"
  by (simp add: keptAt_def keptInfo_def isForbidden_name isAllowedTag_info)

lemma nid_fixT [simp]: "nid (fixT W E t) = nid t"
  by (cases t) simp

lemma ids_fixT [simp]: "ids (fixT W E t) = ids t"
  by (induction t) (simp add: map_idI cong: map_cong)

lemma idsF_fixT [simp]: "idsF (map (fixT W E) ks) = idsF ks"
  by (simp add: idsF_def comp_def)

lemma visited_fields [simp]:
  "nodeType (visited W E S d) = nodeType d"
  "nodeName (visited W E S d) = nodeName d"
  "nodeValue (visited W E S d) = nodeValue d"
  "parentNode (visited W E S d) = parentNode d"
  "childNodes (visited W E S d) = childNodes d"
  by (simp_all add: visited_def)

lemma visited_attributes:
  "attributes (visited W E S d) n =
     (if n \<in> S \<and> keptInfo (nodeName d n) (attributes d n)
      then visitAttrs W E (toLowerCase (nodeName d n)) (attributes d n) else attributes d n)"
  by (simp add: visited_def keptAt_info)

lemma holds_visited:
  "holds d p t \<Longrightarrow> set (ids t) \<subseteq> S \<Longrightarrow> holds (visited W E S d) p (fixT W E t)"
proof (induction t arbitrary: p)
  case (DNode n ty nm v as ks)
  have "holds (visited W E S d) (Some n) (fixT W E k)" if "k \<in> set ks" for k
    using DNode.IH [OF that, of "Some n"] DNode.prems that by auto
  then show ?case using DNode.prems by (simp add: visited_attributes comp_def)
qed

lemma domOk_visited: "domOk (visited W E S d) = domOk d"
  by (simp add: domOk_def)

subsection \<open>The document after the forbidden nodes are removed\<close>

lemma pruned_fields [simp]:
  "nodeType (pruned F d) = nodeType d"
  "nodeName (pruned F d) = nodeName d"
  "nodeValue (pruned F d) = nodeValue d"
  "attributes (pruned F d) = attributes d"
  "childNodes (pruned F d) n = filter (\<lambda>c. c \<notin> F) (childNodes d n)"
  "parentNode (pruned F d) n = (if n \<in> F then None else parentNode d n)"
  by (simp_all add: pruned_def)

lemma pruned_empty [simp]: "pruned {} d = d"
  by (simp add: pruned_def)

lemma document_eqI:
  "nodeType a = nodeType b \<Longrightarrow> nodeName a = nodeName b \<Longrightarrow> nodeValue a = nodeValue b \<Longrightarrow>
   attributes a = attributes b \<Longrightarrow> parentNode a = parentNode b \<Longrightarrow>
   childNodes a = childNodes b \<Longrightarrow> document.more a = document.more b \<Longrightarrow> a = b"
  by (rule document.equality)

lemma pruned_more [simp]: "document.more (pruned F d) = document.more d"
  by (simp add: pruned_def)

lemma pruned_pruned: "pruned G (pruned F d) = pruned (F \<union> G) d"
proof (rule document_eqI)
  show "parentNode (pruned G (pruned F d)) = parentNode (pruned (F \<union> G) d)"
    by (rule ext) simp
  show "childNodes (pruned G (pruned F d)) = childNodes (pruned (F \<union> G) d)"
    by (rule ext) simp
qed simp_all

lemma filter_neq_id: "f \<notin> set xs \<Longrightarrow> filter (\<lambda>c. c \<noteq> f) xs = xs"
  by (induction xs) auto

lemma domOk_childD: "domOk d \<Longrightarrow> c \<in> set (childNodes d n) \<Longrightarrow> parentNode d c = Some n"
  unfolding domOk_def by blast

lemma domOk_distinct: "domOk d \<Longrightarrow> distinct (childNodes d n)"
  unfolding domOk_def by blast

lemma domOk_parentD: "domOk d \<Longrightarrow> parentNode d n = Some p \<Longrightarrow> p < n \<and> n \<in> set (childNodes d p)"
  unfolding domOk_def by blast

lemma domOkI:
  assumes "\<And>n c. c \<in> set (childNodes d n) \<Longrightarrow> parentNode d c = Some n"
    and "\<And>n. distinct (childNodes d n)"
    and "\<And>n p. parentNode d n = Some p \<Longrightarrow> p < n \<and> n \<in> set (childNodes d p)"
  shows "domOk d"
  unfolding domOk_def using assms by blast

lemma domOk_pruned:
  assumes "domOk d"
  shows "domOk (pruned F d)"
proof (rule domOkI)
  fix n c assume "c \<in> set (childNodes (pruned F d) n)"
  then have "c \<notin> F" "c \<in> set (childNodes d n)" by simp_all
  then show "parentNode (pruned F d) c = Some n"
    using domOk_childD [OF assms] by simp
next
  fix n show "distinct (childNodes (pruned F d) n)"
    using domOk_distinct [OF assms] by simp
next
  fix n p assume "parentNode (pruned F d) n = Some p"
  then have "n \<notin> F" "parentNode d n = Some p" by (simp_all split: if_splits)
  then show "p < n \<and> n \<in> set (childNodes (pruned F d) p)"
    using domOk_parentD [OF assms] by simp
qed

lemma eliminateNode_pruned:
  assumes "domOk d"
  shows "eliminateNode f d = pruned {f} d"
proof (cases "parentNode d f")
  case None
  have "f \<notin> set (childNodes d n)" for n
    using domOk_childD [OF assms, of f n] None by auto
  then have ch: "filter (\<lambda>c. c \<noteq> f) (childNodes d n) = childNodes d n" for n
    by (rule filter_neq_id)
  have "pruned {f} d = d"
  proof (rule document_eqI)
    show "parentNode (pruned {f} d) = parentNode d"
      by (rule ext) (simp add: None)
    show "childNodes (pruned {f} d) = childNodes d"
      by (rule ext) (simp add: ch)
  qed simp_all
  then show ?thesis using None by (simp add: eliminateNode_def)
next
  case (Some p)
  define d' where "d' = d\<lparr>childNodes := (childNodes d)(p := remove1 f (childNodes d p)),
                  parentNode := (parentNode d)(f := None)\<rparr>"
  have el: "eliminateNode f d = d'"
    using Some by (simp add: eliminateNode_def removeChild_def d'_def)
  have other: "filter (\<lambda>c. c \<noteq> f) (childNodes d n) = childNodes d n" if "n \<noteq> p" for n
  proof -
    have "f \<notin> set (childNodes d n)"
      using domOk_childD [OF assms, of f n] Some that by auto
    then show ?thesis by (rule filter_neq_id)
  qed
  have own: "remove1 f (childNodes d p) = filter (\<lambda>c. c \<noteq> f) (childNodes d p)"
    using domOk_distinct [OF assms, of p]
    by (simp add: distinct_remove1_removeAll removeAll_filter_not_eq eq_commute)
  have "d' = pruned {f} d"
  proof (rule document_eqI)
    show "parentNode d' = parentNode (pruned {f} d)"
      by (rule ext) (simp add: d'_def)
    show "childNodes d' = childNodes (pruned {f} d)"
    proof (rule ext)
      fix n show "childNodes d' n = childNodes (pruned {f} d) n"
        using other [of n] own by (cases "n = p") (simp_all add: d'_def)
    qed
  qed (simp_all add: d'_def)
  with el show ?thesis by simp
qed

lemma fold_eliminateNode:
  "domOk d \<Longrightarrow> fold eliminateNode fl d = pruned (set fl) d"
proof (induction fl arbitrary: d rule: rev_induct)
  case Nil
  show ?case by simp
next
  case (snoc f fl)
  have "fold eliminateNode (fl @ [f]) d = eliminateNode f (pruned (set fl) d)"
    using snoc by simp
  also have "\<dots> = pruned {f} (pruned (set fl) d)"
    by (rule eliminateNode_pruned [OF domOk_pruned [OF snoc.prems]])
  also have "\<dots> = pruned (set (fl @ [f])) d"
    by (simp add: pruned_pruned)
  finally show ?case .
qed

lemma nid_pruneT [simp]: "nid (pruneT F t) = nid t"
  by (cases t) simp

lemma holds_pruned:
  "holds d p t \<Longrightarrow> nid t \<notin> F \<Longrightarrow> holds (pruned F d) p (pruneT F t)"
proof (induction t arbitrary: p)
  case (DNode n ty nm v as ks)
  have "holds (pruned F d) (Some n) (pruneT F k)" if "k \<in> set ks" "nid k \<notin> F" for k
    using DNode.IH [OF that(1), of "Some n"] DNode.prems that by auto
  moreover have "filter (\<lambda>c. c \<notin> F) (map nid ks) = map nid (filter (\<lambda>k. nid k \<notin> F) ks)"
    by (simp add: filter_map comp_def)
  ultimately show ?case using DNode.prems by (simp add: comp_def)
qed

subsection \<open>One turn of \<open>removeList.forEach\<close> in closed form\<close>

lemma splice_Nil: "splice u [] xs = remove1 u xs"
  by (induction xs) auto

lemma splice_insertInto: "c \<noteq> u \<Longrightarrow> splice u cs (insertInto c u xs) = splice u (c # cs) xs"
  by (induction xs) auto

lemma splice_notin: "u \<notin> set xs \<Longrightarrow> splice u cs xs = xs"
  by (induction xs) auto

lemma splice_split: "u \<notin> set a \<Longrightarrow> splice u cs (a @ u # b) = a @ cs @ b"
  by (induction a) auto

lemma set_splice:
  "distinct xs \<Longrightarrow> u \<in> set xs \<Longrightarrow> set (splice u cs xs) = set cs \<union> (set xs - {u})"
  by (induction xs) auto

lemma distinct_splice:
  "distinct xs \<Longrightarrow> distinct cs \<Longrightarrow> set cs \<inter> set xs = {} \<Longrightarrow> distinct (splice u cs xs)"
proof (induction xs)
  case Nil
  show ?case by simp
next
  case (Cons x xs)
  show ?case
  proof (cases "x = u")
    case True
    then show ?thesis using Cons.prems by auto
  next
    case False
    have "x \<notin> set (splice u cs xs)"
    proof (cases "u \<in> set xs")
      case True
      then show ?thesis using Cons.prems by (auto simp: set_splice)
    next
      case False
      then show ?thesis using Cons.prems by (simp add: splice_notin)
    qed
    then show ?thesis using False Cons by auto
  qed
qed

lemma set_insertInto: "u \<in> set xs \<Longrightarrow> set (insertInto c u xs) = insert c (set xs)"
  by (induction xs) auto

lemma distinct_insertInto: "distinct xs \<Longrightarrow> c \<notin> set xs \<Longrightarrow> distinct (insertInto c u xs)"
proof (induction xs)
  case Nil
  show ?case by simp
next
  case (Cons x xs)
  show ?case
  proof (cases "u \<in> set xs")
    case True
    then show ?thesis using Cons by (auto simp: set_insertInto)
  next
    case False
    have "insertInto c u xs = xs" using False by (induction xs) auto
    then show ?thesis using Cons by auto
  qed
qed

lemma spliced_fields [simp]:
  "nodeType (spliced p u cs d) = nodeType d"
  "nodeName (spliced p u cs d) = nodeName d"
  "nodeValue (spliced p u cs d) = nodeValue d"
  "attributes (spliced p u cs d) = attributes d"
  "document.more (spliced p u cs d) = document.more d"
  "parentNode (spliced p u cs d) n =
     (if n = u then None else if n \<in> set cs then Some p else parentNode d n)"
  "childNodes (spliced p u cs d) n =
     (if n = p then splice u cs (childNodes d p) else if n = u then [] else childNodes d n)"
  by (simp_all add: spliced_def)

lemma unwrapLoop_spliced:
  assumes "parentNode d u = Some p" "p \<noteq> u" "childNodes d u = cs" "length cs < fuel"
    "distinct cs" "u \<notin> set cs" "p \<notin> set cs" "\<forall>c \<in> set cs. parentNode d c = Some u"
  shows "unwrapLoop fuel (Some p) u d = Some (spliced p u cs d)"
  using assms
proof (induction cs arbitrary: d fuel)
  case Nil
  obtain k where fuel: "fuel = Suc k" using Nil.prems(4) by (cases fuel) auto
  have "d\<lparr>childNodes := (childNodes d)(p := remove1 u (childNodes d p)),
          parentNode := (parentNode d)(u := None)\<rparr> = spliced p u [] d"
  proof (rule document_eqI)
    show "parentNode (d\<lparr>childNodes := (childNodes d)(p := remove1 u (childNodes d p)),
          parentNode := (parentNode d)(u := None)\<rparr>) = parentNode (spliced p u [] d)"
      by (rule ext) simp
    show "childNodes (d\<lparr>childNodes := (childNodes d)(p := remove1 u (childNodes d p)),
          parentNode := (parentNode d)(u := None)\<rparr>) = childNodes (spliced p u [] d)"
      by (rule ext) (simp add: splice_Nil Nil.prems(3))
  qed simp_all
  then show ?case
    using Nil.prems(1,3) by (simp add: fuel removeChild_def)
next
  case (Cons c cs)
  obtain k where fuel: "fuel = Suc k" using Cons.prems(4) by (cases fuel) auto
  have cu: "c \<noteq> u" "c \<noteq> p" "parentNode d c = Some u" "c \<notin> set cs"
    using Cons.prems by auto
  define d' where "d' = d\<lparr>childNodes := (childNodes d)(u := cs, p := insertInto c u (childNodes d p)),
                           parentNode := (parentNode d)(c := Some p)\<rparr>"
  have ins: "insertBefore p c u d = Inr d'"
    using Cons.prems(1,2,3) cu
    by (simp add: insertBefore_def d'_def Let_def)
  have step: "unwrapLoop fuel (Some p) u d = unwrapLoop k (Some p) u d'"
    using Cons.prems(3) ins by (simp add: fuel)
  have "unwrapLoop k (Some p) u d' = Some (spliced p u cs d')"
  proof (rule Cons.IH)
    show "parentNode d' u = Some p" using Cons.prems(1) cu by (simp add: d'_def)
    show "p \<noteq> u" by fact
    show "childNodes d' u = cs" using Cons.prems(2) by (simp add: d'_def)
    show "length cs < k" using Cons.prems(4) fuel by simp
    show "distinct cs" "u \<notin> set cs" "p \<notin> set cs" using Cons.prems by auto
    show "\<forall>x \<in> set cs. parentNode d' x = Some u"
      using Cons.prems(8) cu by (auto simp: d'_def)
  qed
  moreover have "spliced p u cs d' = spliced p u (c # cs) d"
  proof (rule document_eqI)
    show "parentNode (spliced p u cs d') = parentNode (spliced p u (c # cs) d)"
      by (rule ext) (simp add: d'_def)
    show "childNodes (spliced p u cs d') = childNodes (spliced p u (c # cs) d)"
      using cu Cons.prems(2) by (intro ext) (simp add: d'_def splice_insertInto)
  qed (simp_all add: d'_def)
  ultimately show ?case using step by simp
qed

lemma domOk_context:
  assumes ok: "domOk d" and par: "parentNode d u = Some p"
  shows "p \<noteq> u" "u \<in> set (childNodes d p)" "distinct (childNodes d u)"
    "u \<notin> set (childNodes d u)" "p \<notin> set (childNodes d u)"
    "\<forall>c \<in> set (childNodes d u). parentNode d c = Some u"
    "set (childNodes d u) \<inter> set (childNodes d p) = {}"
    "distinct (childNodes d p)"
proof -
  have pu: "p < u" "u \<in> set (childNodes d p)" using domOk_parentD [OF ok par] by simp_all
  show "p \<noteq> u" using pu by simp
  show "u \<in> set (childNodes d p)" by fact
  show "distinct (childNodes d u)" "distinct (childNodes d p)"
    by (rule domOk_distinct [OF ok])+
  have ch: "parentNode d c = Some u \<and> u < c" if "c \<in> set (childNodes d u)" for c
    using domOk_childD [OF ok that] domOk_parentD [OF ok, of c u] by simp
  show "u \<notin> set (childNodes d u)" using ch by auto
  show "p \<notin> set (childNodes d u)" using ch pu by force
  show "\<forall>c \<in> set (childNodes d u). parentNode d c = Some u" using ch by simp
  show "set (childNodes d u) \<inter> set (childNodes d p) = {}"
  proof -
    have False if "c \<in> set (childNodes d u)" "c \<in> set (childNodes d p)" for c
      using ch [OF that(1)] domOk_childD [OF ok that(2)] pu by simp
    then show ?thesis by auto
  qed
qed

lemma unwrapNode_unwrapped:
  assumes "domOk d"
  shows "unwrapNode u d = Some (unwrapped u d)"
proof (cases "parentNode d u")
  case None
  then show ?thesis
    by (simp add: unwrapNode_def unwrapped_def split: list.splits)
next
  case (Some p)
  note ctx = domOk_context [OF assms Some]
  have "unwrapLoop (Suc (length (childNodes d u))) (Some p) u d =
        Some (spliced p u (childNodes d u) d)"
    by (rule unwrapLoop_spliced [OF Some ctx(1) refl _ ctx(3,4,5,6)]) simp
  then show ?thesis by (simp add: unwrapNode_def unwrapped_def Some)
qed

lemma domOk_spliced:
  assumes ok: "domOk d" and par: "parentNode d u = Some p"
  shows "domOk (spliced p u (childNodes d u) d)"
proof (rule domOkI)
  note ctx = domOk_context [OF ok par]
  let ?cs = "childNodes d u" and ?d' = "spliced p u (childNodes d u) d"
  have setp: "set (childNodes ?d' p) = set ?cs \<union> (set (childNodes d p) - {u})"
    using ctx by (simp add: set_splice)
  {
    fix n c assume c: "c \<in> set (childNodes ?d' n)"
    show "parentNode ?d' c = Some n"
    proof (cases "n = p")
      case True
      then consider "c \<in> set ?cs" | "c \<in> set (childNodes d p)" "c \<noteq> u" "c \<notin> set ?cs"
        using c setp by auto
      then show ?thesis
      proof cases
        case 1
        then show ?thesis using ctx True by auto
      next
        case 2
        then show ?thesis using domOk_childD [OF ok 2(1)] True by simp
      qed
    next
      case False
      then have n: "n \<noteq> u" "c \<in> set (childNodes d n)"
        using c by (auto split: if_splits)
      then have pc: "parentNode d c = Some n" using domOk_childD [OF ok] by simp
      have "c \<noteq> u" using pc par False by auto
      moreover have "c \<notin> set ?cs" using pc ctx(6) n(1) by auto
      ultimately show ?thesis using pc by simp
    qed
  next
    fix n show "distinct (childNodes ?d' n)"
      using ctx domOk_distinct [OF ok, of n] by (simp add: distinct_splice)
  next
    fix n q assume q: "parentNode ?d' n = Some q"
    then have nu: "n \<noteq> u" by (auto split: if_splits)
    show "q < n \<and> n \<in> set (childNodes ?d' q)"
    proof (cases "n \<in> set ?cs")
      case True
      then have "q = p" using q nu by simp
      moreover have "u < n" using domOk_parentD [OF ok, of n u] ctx(6) True by auto
      moreover have "p < u" using domOk_parentD [OF ok par] by simp
      ultimately show ?thesis using True setp by auto
    next
      case False
      then have pn: "parentNode d n = Some q" using q nu by simp
      then have qn: "q < n" "n \<in> set (childNodes d q)" using domOk_parentD [OF ok] by auto
      have "q \<noteq> u" using qn(2) False by auto
      then show ?thesis using qn nu setp by auto
    qed
  }
qed

lemma domOk_unwrapped: "domOk d \<Longrightarrow> domOk (unwrapped u d)"
  by (auto simp: unwrapped_def domOk_spliced split: option.splits)

lemma unwrapped_fields [simp]:
  "nodeType (unwrapped u d) = nodeType d"
  "nodeName (unwrapped u d) = nodeName d"
  "nodeValue (unwrapped u d) = nodeValue d"
  "attributes (unwrapped u d) = attributes d"
  by (simp_all add: unwrapped_def split: option.splits)

subsection \<open>Unwrapping in the labelled tree\<close>

lemma nid_unwT [simp]: "nid (unwT u t) = nid t"
  by (cases t) simp

lemma unwT_id: "u \<notin> set (idsF (kids t)) \<Longrightarrow> unwT u t = t"
proof (induction t)
  case (DNode n ty nm v as ks)
  have "(if nid k = u then kids k else [unwT u k]) = [k]" if "k \<in> set ks" for k
  proof -
    have "u \<notin> set (ids k)" using DNode.prems that by (auto simp: in_idsF)
    then have "nid k \<noteq> u" "u \<notin> set (idsF (kids k))" by (auto simp: ids_eq [of k])
    then show ?thesis using DNode.IH [OF that] by simp
  qed
  then have eq: "map (\<lambda>k. if nid k = u then kids k else [unwT u k]) ks = map (\<lambda>k. [k]) ks"
    by (intro map_cong) simp_all
  have "concat (map (\<lambda>k. [k]) ks) = ks" by (induction ks) simp_all
  then show ?case by (simp only: unwT.simps eq)
qed

lemma spliced_sameAt:
  "m \<noteq> u \<Longrightarrow> m \<noteq> p \<Longrightarrow> m \<notin> set cs \<Longrightarrow> sameAt d (spliced p u cs d) m"
  by (simp add: sameAt_def)

lemma idsF_kids_subset: "m \<in> set (idsF (kids t)) \<Longrightarrow> m \<in> set (ids t)"
  by (simp add: ids_eq [of t])

text \<open>The nodes a turn touches all lie in the subtree that holds the node's parent.\<close>

lemma touched_inside:
  assumes h: "holds d q t" and ok: "domOk d" and par: "parentNode d u = Some p"
    and u: "u \<in> set (idsF (kids t))"
  shows "p \<in> set (ids t)" "set (childNodes d u) \<subseteq> set (ids t)"
proof -
  from holds_parent [OF h u] par show "p \<in> set (ids t)" by auto
  have "u \<in> set (ids t)" using u by (rule idsF_kids_subset)
  from holds_children [OF h this] show "set (childNodes d u) \<subseteq> set (ids t)"
    by (auto dest: idsF_kids_subset)
qed

lemma holds_spliced_outside:
  assumes h: "holds d q t" and ok: "domOk d" and par: "parentNode d u = Some p"
    and u: "u \<notin> set (ids t)" and q: "q \<noteq> Some u"
  shows "holds (spliced p u (childNodes d u) d) q t"
proof (rule holds_frame [OF h])
  fix m assume m: "m \<in> set (ids t)"
  have "m \<noteq> u" using m u by auto
  moreover have "m \<noteq> p"
  proof
    assume "m = p"
    then have "u \<in> set (childNodes d m)" using domOk_parentD [OF ok par] by simp
    from holds_children [OF h m this] have "u \<in> set (ids t)" by (auto dest: idsF_kids_subset)
    then show False using u by simp
  qed
  moreover have "m \<notin> set (childNodes d u)"
  proof
    assume "m \<in> set (childNodes d u)"
    then have pm: "parentNode d m = Some u" by (rule domOk_childD [OF ok])
    show False
    proof (cases "m = nid t")
      case True
      then show ?thesis using holds_root_parent [OF h] pm q by simp
    next
      case False
      then have "m \<in> set (idsF (kids t))" using m by (simp add: ids_eq [of t])
      from holds_parent [OF h this] pm have "u \<in> set (ids t)" by auto
      then show ?thesis using u by simp
    qed
  qed
  ultimately show "sameAt d (spliced p u (childNodes d u) d) m"
    by (rule spliced_sameAt)
qed

lemma distinct_ids_split:
  assumes "distinct (ids (DNode n ty nm v as (pre @ k # post)))"
  shows "n \<notin> set (ids k)" "n \<notin> set (idsF pre)" "n \<notin> set (idsF post)"
    "set (ids k) \<inter> set (idsF pre) = {}" "set (ids k) \<inter> set (idsF post) = {}"
    "distinct (ids k)"
  using assms by (auto simp: idsF_def [symmetric])

lemma holds_spliced_inside:
  assumes ok: "domOk d" and par: "parentNode d u = Some p"
  shows "holds d q t \<Longrightarrow> distinct (ids t) \<Longrightarrow> u \<in> set (idsF (kids t)) \<Longrightarrow>
         holds (spliced p u (childNodes d u) d) q (unwT u t)"
proof (induction t arbitrary: q)
  case (DNode n ty nm v as ks)
  let ?cs = "childNodes d u" and ?d' = "spliced p u (childNodes d u) d"
  let ?f = "\<lambda>k. if nid k = u then kids k else [unwT u k]"
  from DNode.prems(3) obtain k where k: "k \<in> set ks" "u \<in> set (ids k)"
    by (auto simp: in_idsF)
  then obtain pre post where ks: "ks = pre @ k # post"
    by (auto dest: split_list)
  note dis = distinct_ids_split [OF DNode.prems(2) [unfolded ks]]
  have hk: "holds d (Some n) k" using DNode.prems(1) k(1) by simp
  have u_pre: "u \<notin> set (idsF pre)" and u_post: "u \<notin> set (idsF post)"
    using dis(4,5) k(2) by auto
  have same: "map ?f js = map (\<lambda>j. [j]) js" if "u \<notin> set (idsF js)" for js
  proof (rule map_cong [OF refl])
    fix j assume j: "j \<in> set js"
    then have "u \<notin> set (ids j)" using that by (auto simp: in_idsF)
    then have "nid j \<noteq> u" "u \<notin> set (idsF (kids j))" by (auto simp: ids_eq [of j])
    then show "?f j = [j]" by (simp add: unwT_id)
  qed
  have kids': "concat (map ?f ks) = pre @ ?f k @ post"
    by (simp add: ks same [OF u_pre] same [OF u_post])
  have inside: "m \<noteq> u \<and> m \<noteq> p \<and> m \<notin> set ?cs" if "u \<noteq> nid k \<or> p = n" "m \<notin> set (ids k)" "m \<noteq> n" for m
  proof -
    have "set ?cs \<subseteq> set (ids k)"
      using holds_children [OF hk k(2)] by (auto dest: idsF_kids_subset)
    moreover have "p \<in> set (ids k) \<or> p = n"
    proof (cases "u = nid k")
      case True
      then show ?thesis using that(1) by simp
    next
      case False
      then have "u \<in> set (idsF (kids k))" using k(2) by (simp add: ids_eq [of k])
      from touched_inside(1) [OF hk ok par this] show ?thesis by simp
    qed
    ultimately show ?thesis using that k(2) by auto
  qed
  have others: "holds ?d' (Some n) j" if "j \<in> set pre \<union> set post" "u \<noteq> nid k \<or> p = n" for j
  proof (rule holds_frame)
    show "holds d (Some n) j" using DNode.prems(1) that(1) ks by auto
    fix m assume m: "m \<in> set (ids j)"
    then have "m \<in> set (idsF pre) \<union> set (idsF post)" using that(1) by (auto simp: in_idsF)
    then have "m \<notin> set (ids k)" "m \<noteq> n" using dis by auto
    from inside [OF that(2) this] show "sameAt d ?d' m" by (simp add: spliced_sameAt)
  qed
  show ?case
  proof (cases "u = nid k")
    case True
    have pn: "p = n" using holds_root_parent [OF hk] par True by simp
    have cs: "?cs = map nid (kids k)" using holds_root_children [OF hk] True by simp
    have un: "u \<noteq> n" using dis(1) k(2) by auto
    have "n \<notin> set ?cs"
      using holds_children [OF hk k(2)] dis(1) by (auto dest: idsF_kids_subset)
    then have root: "parentNode ?d' n = q" "nodeType ?d' n = ty" "nodeName ?d' n = nm"
      "nodeValue ?d' n = v" "attributes ?d' n = as"
      using DNode.prems(1) un by simp_all
    have "u \<notin> nid ` set pre"
    proof
      assume "u \<in> nid ` set pre"
      then obtain j where "j \<in> set pre" "nid j = u" by auto
      then have "u \<in> set (idsF pre)" unfolding in_idsF using nid_in_ids by metis
      then show False using u_pre by simp
    qed
    then have ch: "childNodes ?d' n = map nid (pre @ kids k @ post)"
      using DNode.prems(1) by (simp add: pn ks True [symmetric] splice_split cs)
    have grand: "holds ?d' (Some n) g" if g: "g \<in> set (kids k)" for g
    proof -
      have hg: "holds d (Some u) g" using holds_kid [OF hk g] True by simp
      have dk: "distinct (idsF (kids k))" "nid k \<notin> set (idsF (kids k))"
        using dis(6) by (simp_all add: ids_eq [of k])
      have gin: "set (ids g) \<subseteq> set (idsF (kids k))" using g by (auto simp: in_idsF)
      have nidg: "nid g \<in> set ?cs" using g cs by simp
      have ng: "nid g \<in> set (idsF (kids k))" using gin nid_in_ids by blast
      then have "nid g \<in> set (ids k)" by (rule idsF_kids_subset)
      then have gne: "nid g \<noteq> u" "nid g \<noteq> n"
        using ng dk(2) True dis(1) by auto
      have "holds ?d' (parentNode ?d' (nid g)) g"
      proof (rule holds_reparent [OF hg])
        fix m assume m: "m \<in> set (idsF (kids g))"
        then have mk: "m \<in> set (idsF (kids k))" using gin idsF_kids_subset by blast
        have "m \<noteq> u" using mk dk(2) True by auto
        moreover have "m \<noteq> n" using mk dis(1) idsF_kids_subset by blast
        moreover have "m \<notin> set ?cs"
        proof
          assume "m \<in> set ?cs"
          then have "parentNode d m = Some u" by (rule domOk_childD [OF ok])
          moreover from holds_parent [OF hg m] obtain r where
            "r \<in> set (ids g)" "parentNode d m = Some r" by auto
          ultimately have "u \<in> set (ids g)" by simp
          then show False using gin dk(2) True by auto
        qed
        ultimately show "sameAt d ?d' m" using pn by (simp add: spliced_sameAt)
      qed (use gne pn in simp_all)
      moreover have "parentNode ?d' (nid g) = Some n" using nidg gne pn by simp
      ultimately show ?thesis by simp
    qed
    have all: "\<forall>j \<in> set (pre @ kids k @ post). holds ?d' (Some n) j"
      using others grand pn by auto
    have fk: "?f k = kids k" using True by simp
    have eq: "unwT u (DNode n ty nm v as ks) = DNode n ty nm v as (pre @ kids k @ post)"
      by (simp only: unwT.simps kids' fk)
    show ?thesis
      unfolding eq using root ch all by simp
  next
    case False
    then have uk: "u \<in> set (idsF (kids k))" using k(2) by (simp add: ids_eq [of k])
    have ih: "holds ?d' (Some n) (unwT u k)"
      by (rule DNode.IH [OF k(1) hk dis(6) uk])
    have "n \<notin> set (ids k)" by (rule dis(1))
    then have "sameAt d ?d' n"
      using touched_inside [OF hk ok par uk] k(2) by (intro spliced_sameAt) auto
    then have root: "parentNode ?d' n = q" "nodeType ?d' n = ty" "nodeName ?d' n = nm"
      "nodeValue ?d' n = v" "attributes ?d' n = as" "childNodes ?d' n = map nid ks"
      using DNode.prems(1) by (simp_all add: sameAt_def)
    have all: "\<forall>j \<in> set (pre @ unwT u k # post). holds ?d' (Some n) j"
      using others ih False by auto
    have fk: "?f k = [unwT u k]" using False by auto
    have eq: "unwT u (DNode n ty nm v as ks) = DNode n ty nm v as (pre @ unwT u k # post)"
      by (simp only: unwT.simps kids' fk append_Cons append_Nil)
    show ?thesis
      unfolding eq using root all by (simp add: ks)
  qed
qed

lemma holds_unwrapped:
  assumes ok: "domOk d" and h: "holds d None t" and dist: "distinct (ids t)"
  shows "holds (unwrapped u d) None (unwT u t)"
proof (cases "parentNode d u")
  case None
  have "u \<notin> set (idsF (kids t))"
  proof
    assume "u \<in> set (idsF (kids t))"
    from holds_parent [OF h this] None show False by auto
  qed
  then show ?thesis using None h by (simp add: unwrapped_def unwT_id)
next
  case (Some p)
  show ?thesis
  proof (cases "u \<in> set (idsF (kids t))")
    case True
    from holds_spliced_inside [OF ok Some h dist True] show ?thesis
      by (simp add: unwrapped_def Some)
  next
    case False
    have "u \<noteq> nid t" using holds_root_parent [OF h] Some by auto
    then have "u \<notin> set (ids t)" using False by (simp add: ids_eq [of t])
    from holds_spliced_outside [OF h ok Some this] False show ?thesis
      by (simp add: unwrapped_def Some unwT_id)
  qed
qed

lemma idsF_concat: "idsF (concat xss) = concat (map idsF xss)"
  by (induction xss) simp_all

lemma idsF_kids_unwT:
  "distinct (ids t) \<Longrightarrow> idsF (kids (unwT u t)) = filter (\<lambda>m. m \<noteq> u) (idsF (kids t))"
proof (induction t)
  case (DNode n ty nm v as ks)
  have dist: "distinct (idsF ks)" using DNode.prems by (simp add: idsF_def)
  have "idsF (if nid k = u then kids k else [unwT u k]) = filter (\<lambda>m. m \<noteq> u) (ids k)"
    if k: "k \<in> set ks" for k
  proof -
    have dk: "distinct (ids k)" by (rule distinct_idsF_kid [OF dist k])
    have ih: "idsF (kids (unwT u k)) = filter (\<lambda>m. m \<noteq> u) (idsF (kids k))"
      by (rule DNode.IH [OF k dk])
    show ?thesis
    proof (cases "nid k = u")
      case True
      then have "u \<notin> set (idsF (kids k))" using dk by (simp add: ids_eq [of k])
      then have "filter (\<lambda>m. m \<noteq> u) (idsF (kids k)) = idsF (kids k)"
        by (rule filter_neq_id)
      then show ?thesis using True by (simp add: ids_eq [of k])
    next
      case False
      then show ?thesis using ih by (simp add: ids_eq [of k] ids_eq [of "unwT u k"])
    qed
  qed
  then have eq: "map (\<lambda>k. idsF (if nid k = u then kids k else [unwT u k])) ks =
        map (\<lambda>k. filter (\<lambda>m. m \<noteq> u) (ids k)) ks"
    by (intro map_cong) simp_all
  have "idsF (kids (unwT u (DNode n ty nm v as ks))) =
        concat (map (\<lambda>k. idsF (if nid k = u then kids k else [unwT u k])) ks)"
    by (simp add: idsF_concat comp_def)
  also have "\<dots> = concat (map (\<lambda>k. filter (\<lambda>m. m \<noteq> u) (ids k)) ks)"
    by (simp only: eq)
  also have "\<dots> = filter (\<lambda>m. m \<noteq> u) (idsF (kids (DNode n ty nm v as ks)))"
    by (simp add: idsF_def filter_concat comp_def)
  finally show ?case .
qed

lemma distinct_unwT: "distinct (ids t) \<Longrightarrow> distinct (ids (unwT u t))"
  by (simp add: ids_eq [of "unwT u t"] ids_eq [of t] idsF_kids_unwT)

lemma forEachM_unwrapNode:
  "domOk d \<Longrightarrow> holds d None t \<Longrightarrow> distinct (ids t) \<Longrightarrow>
   \<exists>d'. forEachM unwrapNode rl d = Some d' \<and> domOk d' \<and> holds d' None (fold (unwT) rl t) \<and>
        nodeType d' = nodeType d \<and> nodeName d' = nodeName d \<and> nodeValue d' = nodeValue d \<and>
        attributes d' = attributes d"
proof (induction rl arbitrary: d t)
  case Nil
  then show ?case by simp
next
  case (Cons u rl)
  have step: "unwrapNode u d = Some (unwrapped u d)"
    by (rule unwrapNode_unwrapped [OF Cons.prems(1)])
  from Cons.IH [OF domOk_unwrapped [OF Cons.prems(1)]
      holds_unwrapped [OF Cons.prems] distinct_unwT [OF Cons.prems(3)]]
  show ?case by (simp add: step)
qed

subsection \<open>All queued nodes unwrapped\<close>

lemma kids_flatT: "kids (flatT U t) = flatF U (kids t)"
  by (cases t) (simp add: flatF_def)

lemma flatT_eq: "flatT U (DNode n ty nm v as ks) = DNode n ty nm v as (flatF U ks)"
  by (simp add: flatF_def)

lemma nid_flatT [simp]: "nid (flatT U t) = nid t"
  by (cases t) simp

lemma flatF_simps [simp]:
  "flatF U [] = []"
  "flatF U (xs @ ys) = flatF U xs @ flatF U ys"
  by (simp_all add: flatF_def)

lemma flatF_single: "flatF U [k] = (if nid k \<in> U then flatF U (kids k) else [flatT U k])"
  by (simp add: flatF_def kids_flatT [unfolded flatF_def])

lemma flatF_Cons: "flatF U (k # ks) = flatF U [k] @ flatF U ks"
  by (simp add: flatF_def)

lemma flatF_map: "flatF U (map g js) = concat (map (\<lambda>k. flatF U [g k]) js)"
  by (induction js) (simp_all add: flatF_def)

lemma concat_flatF_single: "concat (map (\<lambda>k. flatF V [k]) js) = flatF V js"
  by (induction js) (simp_all add: flatF_def)

lemma flatF_concat: "flatF U (concat xss) = concat (map (flatF U) xss)"
  by (induction xss) simp_all

lemma flatF_cong:
  "(\<And>k. k \<in> set ks \<Longrightarrow> nid k \<in> U \<longleftrightarrow> nid k \<in> U') \<Longrightarrow>
   (\<And>k. k \<in> set ks \<Longrightarrow> flatT U k = flatT U' k) \<Longrightarrow> flatF U ks = flatF U' ks"
  unfolding flatF_def by (intro arg_cong [where f = concat] map_cong) simp_all

lemma flatT_empty: "flatT {} t = t"
proof (induction t)
  case (DNode n ty nm v as ks)
  have "map (flatT {}) ks = ks"
    using DNode.IH by (intro map_idI)
  then show ?case by simp
qed

lemma flatT_insert_notin:
  "u \<notin> set (idsF (kids t)) \<Longrightarrow> flatT (insert u U) t = flatT U t"
proof (induction t)
  case (DNode n ty nm v as ks)
  have "flatF (insert u U) ks = flatF U ks"
  proof (rule flatF_cong)
    fix k assume k: "k \<in> set ks"
    then have "u \<notin> set (ids k)" using DNode.prems by (auto simp: in_idsF)
    then have *: "nid k \<noteq> u" "u \<notin> set (idsF (kids k))" by (auto simp: ids_eq [of k])
    show "nid k \<in> insert u U \<longleftrightarrow> nid k \<in> U" using * by simp
    show "flatT (insert u U) k = flatT U k" using DNode.IH [OF k *(2)] .
  qed
  then show ?case by (simp only: flatT_eq)
qed

lemma flatT_unwT:
  "distinct (ids t) \<Longrightarrow> flatT U (unwT u t) = flatT (insert u U) t"
proof (induction t)
  case (DNode n ty nm v as ks)
  let ?f = "\<lambda>k. if nid k = u then kids k else [unwT u k]"
  have dist: "distinct (idsF ks)" using DNode.prems by (simp add: idsF_def)
  have "flatF U (?f k) = flatF (insert u U) [k]" if k: "k \<in> set ks" for k
  proof -
    have dk: "distinct (ids k)" by (rule distinct_idsF_kid [OF dist k])
    show ?thesis
    proof (cases "nid k = u")
      case True
      then have "u \<notin> set (idsF (kids k))" using dk by (simp add: ids_eq [of k])
      then have "flatT (insert u U) k = flatT U k" by (rule flatT_insert_notin)
      then have "flatF (insert u U) (kids k) = flatF U (kids k)"
        by (simp add: kids_flatT [symmetric])
      then show ?thesis using True by (simp add: flatF_single)
    next
      case False
      have "flatF U [unwT u k] = flatF (insert u U) [k]"
        using False DNode.IH [OF k dk]
        by (simp add: flatF_single kids_flatT [symmetric])
      then show ?thesis using False by simp
    qed
  qed
  then have "map (\<lambda>k. flatF U (?f k)) ks = map (\<lambda>k. flatF (insert u U) [k]) ks"
    by (intro map_cong) simp_all
  then have "flatF U (concat (map ?f ks)) = flatF (insert u U) ks"
    by (simp only: flatF_concat map_map comp_def concat_flatF_single)
  then show ?case by (simp only: unwT.simps flatT_eq)
qed

lemma fold_unwT:
  "distinct (ids t) \<Longrightarrow> fold unwT rl t = flatT (set rl) t"
proof (induction rl arbitrary: t)
  case Nil
  show ?case by (simp add: flatT_empty)
next
  case (Cons u rl)
  have "fold unwT (u # rl) t = flatT (set rl) (unwT u t)"
    using Cons.IH [OF distinct_unwT [OF Cons.prems]] by simp
  also have "\<dots> = flatT (set (u # rl)) t"
    using flatT_unwT [OF Cons.prems] by simp
  finally show ?case .
qed

subsection \<open>The result in one recursive pass\<close>

lemma classified_holds:
  "holds d p t \<Longrightarrow> set (ids t) \<subseteq> set ns \<Longrightarrow>
   classified (set (filter (forbiddenAt d) ns)) (set (filter (unknownAt d) ns)) t"
proof (induction t arbitrary: p)
  case (DNode n ty nm v as ks)
  have "classified (set (filter (forbiddenAt d) ns)) (set (filter (unknownAt d) ns)) k"
    if "k \<in> set ks" for k
    using DNode.IH [OF that, of "Some n"] DNode.prems that by auto
  moreover have "forbiddenAt d n = forbiddenName nm"
    "unknownAt d n = (\<not> forbiddenName nm \<and> \<not> allowedInfo nm as)"
    using DNode.prems(1)
    by (simp_all add: forbiddenAt_def unknownAt_def isForbidden_name isAllowedTag_info)
  ultimately show ?case using DNode.prems(2) by simp
qed

lemma classified_forbidden: "classified F U t \<Longrightarrow> nid t \<in> F \<Longrightarrow> cleanT W E t = []"
  by (cases t) simp

lemma concat_map_filter_Nil:
  "(\<And>x. x \<in> set xs \<Longrightarrow> \<not> P x \<Longrightarrow> f x = []) \<Longrightarrow>
   concat (map f (filter P xs)) = concat (map f xs)"
  by (induction xs) auto

lemma cleanT_flatT:
  "classified F U t \<Longrightarrow> nid t \<notin> F \<Longrightarrow>
   flatF U [pruneT F (fixT W E t)] = cleanT W E t"
proof (induction t)
  case (DNode n ty nm v as ks)
  let ?g = "\<lambda>k. pruneT F (fixT W E k)"
  have cls: "n \<in> U \<longleftrightarrow> \<not> allowedInfo nm as" "\<not> forbiddenName nm"
    using DNode.prems by auto
  have kid: "flatF U [?g k] = cleanT W E k" if "k \<in> set ks" "nid k \<notin> F" for k
    using DNode.IH [OF that(1)] DNode.prems(1) that by simp
  have "flatF U (map ?g (filter (\<lambda>k. nid k \<notin> F) ks)) =
      concat (map (\<lambda>k. flatF U [?g k]) (filter (\<lambda>k. nid k \<notin> F) ks))"
    by (rule flatF_map)
  also have "\<dots> = concat (map (cleanT W E) (filter (\<lambda>k. nid k \<notin> F) ks))"
    using kid by (intro arg_cong [where f = concat] map_cong) simp_all
  also have "\<dots> = concat (map (cleanT W E) ks)"
  proof (rule concat_map_filter_Nil)
    fix k assume "k \<in> set ks" "\<not> nid k \<notin> F"
    then show "cleanT W E k = []"
      using DNode.prems(1) by (intro classified_forbidden [where F = F and U = U]) simp_all
  qed
  finally have ks': "flatF U (map ?g (filter (\<lambda>k. nid k \<notin> F) ks)) = concat (map (cleanT W E) ks)" .
  have fm: "filter (\<lambda>k. nid k \<notin> F) (map (fixT W E) ks) = map (fixT W E) (filter (\<lambda>k. nid k \<notin> F) ks)"
    by (simp add: filter_map comp_def)
  have pr: "pruneT F (fixT W E (DNode n ty nm v as ks)) =
      DNode n ty nm v (if keptInfo nm as then visitAttrs W E (toLowerCase nm) as else as)
        (map ?g (filter (\<lambda>k. nid k \<notin> F) ks))"
    by (simp add: fm)
  show ?case
    unfolding pr flatF_single using cls ks'
    by (simp add: flatT_eq keptInfo_def del: flatT.simps)
qed

lemma cleanT_flatF:
  assumes "\<And>k. k \<in> set ks \<Longrightarrow> classified F U k"
  shows "flatF U (map (pruneT F) (filter (\<lambda>k. nid k \<notin> F) (map (fixT W E) ks))) =
         concat (map (cleanT W E) ks)"
proof -
  let ?g = "\<lambda>k. pruneT F (fixT W E k)"
  have fm: "map (pruneT F) (filter (\<lambda>k. nid k \<notin> F) (map (fixT W E) ks)) =
      map ?g (filter (\<lambda>k. nid k \<notin> F) ks)"
    by (simp add: filter_map comp_def)
  have "flatF U (map ?g (filter (\<lambda>k. nid k \<notin> F) ks)) =
      concat (map (\<lambda>k. flatF U [?g k]) (filter (\<lambda>k. nid k \<notin> F) ks))"
    by (rule flatF_map)
  also have "\<dots> = concat (map (cleanT W E) (filter (\<lambda>k. nid k \<notin> F) ks))"
    using assms by (intro arg_cong [where f = concat] map_cong) (simp_all add: cleanT_flatT)
  also have "\<dots> = concat (map (cleanT W E) ks)"
  proof (rule concat_map_filter_Nil)
    fix k assume "k \<in> set ks" "\<not> nid k \<notin> F"
    then show "cleanT W E k = []"
      using assms by (intro classified_forbidden [where F = F and U = U]) simp_all
  qed
  finally show ?thesis unfolding fm .
qed

subsection \<open>Handles of the pruned and unwrapped trees\<close>

lemma set_concat_sub:
  "(\<And>x. x \<in> set xs \<Longrightarrow> set (g x) \<subseteq> set (f x)) \<Longrightarrow>
   set (concat (map g (filter P xs))) \<subseteq> set (concat (map f xs))"
proof (induction xs)
  case Nil
  show ?case by simp
next
  case (Cons x xs)
  have "set (concat (map g (filter P xs))) \<subseteq> set (concat (map f xs))"
    using Cons by simp
  moreover have "set (g x) \<subseteq> set (f x)" using Cons.prems by simp
  ultimately show ?case by (cases "P x") ((simp del: set_concat), blast)+
qed

lemma distinct_concat_sub:
  assumes "distinct (concat (map f xs))"
    and "\<And>x. x \<in> set xs \<Longrightarrow> distinct (g x) \<and> set (g x) \<subseteq> set (f x)"
  shows "distinct (concat (map g (filter P xs)))"
  using assms
proof (induction xs)
  case Nil
  show ?case by simp
next
  case (Cons x xs)
  let ?R = "concat (map g (filter P xs))"
  have rest: "distinct ?R"
    using Cons by simp
  have sub: "set ?R \<subseteq> set (concat (map f xs))"
    using Cons.prems(2) by (intro set_concat_sub) simp
  have gx: "distinct (g x)" "set (g x) \<subseteq> set (f x)" using Cons.prems(2) by simp_all
  have "set (f x) \<inter> set (concat (map f xs)) = {}" using Cons.prems(1) by simp
  then have disj: "set (g x) \<inter> set ?R = {}" using sub gx(2) by blast
  show ?case
  proof (cases "P x")
    case True
    then have "concat (map g (filter P (x # xs))) = g x @ ?R" by simp
    then show ?thesis using rest gx(1) disj by simp
  next
    case False
    then show ?thesis using rest by simp
  qed
qed

lemma ids_pruneT:
  "distinct (ids t) \<Longrightarrow> distinct (ids (pruneT F t)) \<and> set (ids (pruneT F t)) \<subseteq> set (ids t)"
proof (induction t)
  case (DNode n ty nm v as ks)
  let ?X = "concat (map (\<lambda>k. ids (pruneT F k)) (filter (\<lambda>k. nid k \<notin> F) ks))"
  let ?Y = "concat (map ids ks)"
  have dist: "distinct ?Y" "n \<notin> set ?Y"
    using DNode.prems by simp_all
  have kid: "distinct (ids (pruneT F k)) \<and> set (ids (pruneT F k)) \<subseteq> set (ids k)"
    if "k \<in> set ks" for k
    using DNode.IH [OF that] distinct_idsF_kid [of ks k] dist(1) that by (simp add: idsF_def)
  have d: "distinct ?X"
    using dist(1) kid by (rule distinct_concat_sub)
  have s: "set ?X \<subseteq> set ?Y"
    using kid by (intro set_concat_sub) simp
  have eq: "ids (pruneT F (DNode n ty nm v as ks)) = n # ?X"
    "ids (DNode n ty nm v as ks) = n # ?Y"
    by (simp_all add: comp_def)
  have "n \<notin> set ?X" using s dist(2) by blast
  then have "distinct (n # ?X)" using d by simp
  moreover have "set (n # ?X) \<subseteq> set (n # ?Y)" using s by (simp only: list.set) blast
  ultimately show ?case by (simp only: eq)
qed

lemma ids_fold_unwT:
  "distinct (ids t) \<Longrightarrow>
   distinct (ids (fold unwT rl t)) \<and> set (ids (fold unwT rl t)) \<subseteq> set (ids t)"
proof (induction rl arbitrary: t)
  case Nil
  then show ?case by simp
next
  case (Cons u rl)
  have "set (ids (unwT u t)) \<subseteq> set (ids t)"
    using Cons.prems by (auto simp: ids_eq [of "unwT u t"] ids_eq [of t] idsF_kids_unwT)
  then show ?case
    using Cons.IH [OF distinct_unwT [OF Cons.prems], of u] by auto
qed

lemma depth_bound:
  assumes "distinct (ids t)" "set (ids t) \<subseteq> set (ids s)"
  shows "depth t \<le> length (ids s)"
proof -
  have "length (ids t) = card (set (ids t))" using assms(1) by (simp add: distinct_card)
  also have "\<dots> \<le> card (set (ids s))" using assms(2) by (simp add: card_mono)
  also have "\<dots> \<le> length (ids s)" by (rule card_length)
  finally show ?thesis using depth_le_ids [of t] by simp
qed

subsection \<open>The whole run\<close>

lemma idsF_labels_body: "idsF (labels (Suc body) content) = walkOrder content"
  by (simp only: ids_label_labels walkOrder_def body_def) simp

lemma length_ids_bodyTree: "length (ids (bodyTree content)) < depthFuel content"
  by (simp add: ids_bodyTree depthFuel_def del: upt_Suc)

lemma treeWalker_parse:
  "treeWalker (depthFuel content) (parseFromString content) body = Some (walkOrder content)"
proof -
  have "depth (bodyTree content) \<le> depthFuel content"
    using depth_le_ids [of "bodyTree content"] length_ids_bodyTree [of content] by simp
  from treeWalker_holds [OF parse_holds this]
  show ?thesis by (simp add: bodyTree_def idsF_labels_body)
qed

lemma body_notin_walkOrder: "body \<notin> set (walkOrder content)"
  by (simp add: walkOrder_def body_def del: upt_Suc)

lemma walkDocument_eq:
  "walkDocument W E content =
     Some (visited W E (set (walkOrder content)) (parseFromString content),
           filter (unknownAt (parseFromString content)) (walkOrder content),
           filter (forbiddenAt (parseFromString content)) (walkOrder content))"
proof -
  have "distinct (walkOrder content)" by (simp add: walkOrder_def)
  then show ?thesis
    by (simp add: walkDocument_def treeWalker_parse fold_visitNode Let_def)
qed

lemma holds_walked:
  "holds (visited W E (set (walkOrder content)) (parseFromString content)) None
     (DNode body ELEMENT_NODE ''BODY'' [] [] (map (fixT W E) (labels (Suc body) content)))"
proof -
  let ?d = "parseFromString content" and ?S = "set (walkOrder content)"
  have h: "holds ?d None (DNode body ELEMENT_NODE ''BODY'' [] [] (labels (Suc body) content))"
    using parse_holds [of content] by (simp add: bodyTree_def)
  have "holds (visited W E ?S ?d) (Some body) (fixT W E k)"
    if "k \<in> set (labels (Suc body) content)" for k
  proof (rule holds_visited)
    show "holds ?d (Some body) k" using h that by simp
    have "set (ids k) \<subseteq> set (idsF (labels (Suc body) content))"
      using that by (auto simp: in_idsF)
    then show "set (ids k) \<subseteq> ?S" by (simp add: idsF_labels_body)
  qed
  then show ?thesis
    using h body_notin_walkOrder [of content]
    by (simp add: visited_attributes comp_def)
qed

lemma sanitizeDocument_main:
  fixes W E content
  defines "d0 \<equiv> parseFromString content"
  defines "d1 \<equiv> visited W E (set (walkOrder content)) (parseFromString content)"
  shows "\<exists>d3. sanitizeDocument W E content = Some d3 \<and> domOk d3 \<and>
           holds d3 None (resultTree W E content) \<and>
           depth (resultTree W E content) \<le> depthFuel content \<and>
           nodeType d3 = nodeType d0 \<and> nodeName d3 = nodeName d0 \<and>
           nodeValue d3 = nodeValue d0 \<and> attributes d3 = attributes d1"
proof -
  let ?ks = "labels (Suc body) content"
  let ?ns = "walkOrder content"
  let ?rl = "filter (unknownAt d0) ?ns" and ?fl = "filter (forbiddenAt d0) ?ns"
  let ?B1 = "DNode body ELEMENT_NODE ''BODY'' [] [] (map (fixT W E) ?ks)"
  let ?B2 = "pruneT (set ?fl) ?B1"
  let ?d2 = "pruned (set ?fl) d1"
  have ok1: "domOk d1" unfolding d1_def by (simp add: domOk_visited parse_domOk)
  have h1: "holds d1 None ?B1" unfolding d1_def by (rule holds_walked)
  have d2: "fold eliminateNode ?fl d1 = ?d2" by (rule fold_eliminateNode [OF ok1])
  have ok2: "domOk ?d2" by (rule domOk_pruned [OF ok1])
  have "body \<notin> set ?fl" using body_notin_walkOrder [of content] by simp
  then have h2: "holds ?d2 None ?B2" using holds_pruned [OF h1, of "set ?fl"] by simp
  have ids1: "ids ?B1 = ids (bodyTree content)"
    by (simp add: bodyTree_def comp_def idsF_def)
  have dist1: "distinct (ids ?B1)" unfolding ids1 by (rule distinct_ids_bodyTree)
  have dist2: "distinct (ids ?B2)" and sub2: "set (ids ?B2) \<subseteq> set (ids ?B1)"
    using ids_pruneT [OF dist1, of "set ?fl"] by blast+
  from forEachM_unwrapNode [OF ok2 h2 dist2, of ?rl]
  obtain d3 where d3: "forEachM unwrapNode ?rl ?d2 = Some d3" "domOk d3"
    "holds d3 None (fold unwT ?rl ?B2)" "nodeType d3 = nodeType ?d2" "nodeName d3 = nodeName ?d2"
    "nodeValue d3 = nodeValue ?d2" "attributes d3 = attributes ?d2"
    by blast
  have run: "sanitizeDocument W E content = Some d3"
    using d3(1) d2 by (simp add: sanitizeDocument_def walkDocument_eq d0_def d1_def)
  have cls: "classified (set ?fl) (set ?rl) k" if "k \<in> set ?ks" for k
  proof (rule classified_holds)
    show "holds d0 (Some body) k"
      using parse_holds [of content] that by (simp add: bodyTree_def d0_def)
    have "set (ids k) \<subseteq> set (idsF ?ks)" using that by (auto simp: in_idsF)
    then show "set (ids k) \<subseteq> set ?ns" by (simp add: idsF_labels_body)
  qed
  have "fold unwT ?rl ?B2 = flatT (set ?rl) ?B2" by (rule fold_unwT [OF dist2])
  also have "\<dots> = DNode body ELEMENT_NODE ''BODY'' [] []
      (flatF (set ?rl) (map (pruneT (set ?fl)) (filter (\<lambda>k. nid k \<notin> set ?fl) (map (fixT W E) ?ks))))"
    by (simp only: pruneT.simps flatT_eq)
  also have "\<dots> = resultTree W E content"
    unfolding resultTree_def using cleanT_flatF [of ?ks "set ?fl" "set ?rl" W E] cls by simp
  finally have res: "fold unwT ?rl ?B2 = resultTree W E content" .
  have dist3: "distinct (ids (fold unwT ?rl ?B2))"
    and sub3: "set (ids (fold unwT ?rl ?B2)) \<subseteq> set (ids ?B2)"
    using ids_fold_unwT [OF dist2, of ?rl] by blast+
  have "set (ids (fold unwT ?rl ?B2)) \<subseteq> set (ids (bodyTree content))"
    using order_trans [OF sub3 sub2] by (simp only: ids1)
  with dist3 have "depth (fold unwT ?rl ?B2) \<le> length (ids (bodyTree content))"
    by (rule depth_bound)
  then have dep: "depth (resultTree W E content) \<le> depthFuel content"
    using length_ids_bodyTree [of content] res by simp
  show ?thesis
    using run d3(2-) res dep by (simp add: d0_def d1_def)
qed

subsection \<open>The result as a function of the parsed tree\<close>

lemma lower_text [simp]:
  "toLowerCase ''#text'' = ''#text''" "toLowerCase ''#comment'' = ''#comment''"
  by (simp_all add: toLowerCase.simps kelvinSign_def lowerChar_def)

lemma text_comment_class [simp]:
  "\<not> forbiddenName ''#text''" "allowedInfo ''#text'' as"
  "\<not> forbiddenName ''#comment''" "\<not> allowedInfo ''#comment'' as"
  by (simp_all add: forbiddenName_def allowedInfo_def forbiddenTags_def allowedTags_def)

lemma visitAttrs_Nil [simp]: "visitAttrs W E tg [] = []"
  by (simp add: visitAttrs_def normAttrs_def stripAttrs_def)

lemma erase_cleanT:
  "map erase (cleanT W E (label k t)) = sanitizeTree W E t"
  "map erase (concat (map (cleanT W E) (labels k ts))) = concat (map (sanitizeTree W E) ts)"
  by (induction k t and k ts rule: label_labels.induct) simp_all

theorem sanitizeHtml_eq: "sanitizeHtml W E content = Some (sanitizeForest W E content)"
proof -
  from sanitizeDocument_main [of W E content]
  obtain d3 where d3: "sanitizeDocument W E content = Some d3"
    "holds d3 None (resultTree W E content)"
    "depth (resultTree W E content) \<le> depthFuel content"
    by blast
  have "nid (resultTree W E content) = body" by (simp add: resultTree_def)
  with innerHTML_holds [OF d3(2,3)]
  have "innerHTML (depthFuel content) d3 body = Some (map erase (kids (resultTree W E content)))"
    by simp
  then show ?thesis
    by (simp add: sanitizeHtml_def d3(1) resultTree_def erase_cleanT sanitizeForest_def)
qed

subsection \<open>Attributes after a visit\<close>

lemma map_of_filter_names:
  "map_of (filter (\<lambda>b. fst b \<notin> R) as) k = (if k \<in> R then None else map_of as k)"
  by (induction as) auto

lemma map_of_stripAttrs:
  "map_of (stripAttrs W E tg as) k =
     (if k \<in> fst ` set (filter (attrRejected W E tg) as) then None else map_of as k)"
  unfolding stripAttrs_def by (rule map_of_filter_names)

lemma target_rejected: "attrRejected W E tg (''target'', v)"
  by (simp add: attrRejected_def isAllowedAttr_def)

lemma stripAttrs_target: "map_of (stripAttrs W E tg as) ''target'' = None"
proof (cases "''target'' \<in> fst ` set as")
  case True
  then obtain v where "(''target'', v) \<in> set as" by force
  then have "''target'' \<in> fst ` set (filter (attrRejected W E tg) as)"
    using target_rejected [of W E tg v] by force
  then show ?thesis by (simp add: map_of_stripAttrs)
next
  case False
  then have "map_of as ''target'' = None" by (simp add: map_of_eq_None_iff)
  then show ?thesis by (simp add: map_of_stripAttrs)
qed

lemma allowed_not_rejected:
  "isAllowedAttr tg k \<Longrightarrow> k \<notin> fst ` set (filter (attrRejected W E tg) as)"
  by (auto simp: attrRejected_def)

lemma stripAttrs_allowed:
  "isAllowedAttr tg k \<Longrightarrow> map_of (stripAttrs W E tg as) k = map_of as k"
  using allowed_not_rejected [of tg k W E as] by (simp only: map_of_stripAttrs if_False)

lemma map_of_setAttr:
  "map_of (setAttr k v as) k' = (if k' = k then Some v else map_of as k')"
  by (induction as) auto

lemma anchor_kept:
  "toLowerCase (nodeName d n) = ''a'' \<Longrightarrow> keptAt d n"
  by (simp add: keptAt_def isForbidden_def isAllowedTag_def forbiddenTags_def allowedTags_def)

lemma visit_attributes:
  "attributes (normalizeLink n (stripAttributes W E n d)) n =
     visitAttrs W E (toLowerCase (nodeName d n)) (attributes d n)"
  by (simp add: normalizeLink_eq stripAttributes_eq visitAttrs_def)

lemma strip_attributes:
  "attributes (stripAttributes W E n d) n =
     stripAttrs W E (toLowerCase (nodeName d n)) (attributes d n)"
  by (simp add: stripAttributes_eq)

lemma strip_attributes_other:
  "m \<noteq> n \<Longrightarrow> attributes (stripAttributes W E n d) m = attributes d m"
  by (simp add: stripAttributes_eq)

text \<open>What the run leaves in the document, node by node.\<close>

lemma sanitizeDocument_nodes:
  "\<exists>doc. treeWalker (depthFuel content) (parseFromString content) body = Some (walkOrder content) \<and>
     sanitizeDocument W E content = Some doc \<and>
     nodeName doc = nodeName (parseFromString content) \<and>
     nodeType doc = nodeType (parseFromString content) \<and>
     nodeValue doc = nodeValue (parseFromString content) \<and>
     (\<forall>n. attributes doc n =
        (if n \<in> set (walkOrder content) \<and> keptAt (parseFromString content) n
         then attributes (normalizeLink n (stripAttributes W E n (parseFromString content))) n
         else attributes (parseFromString content) n)) \<and>
     holds doc None (resultTree W E content) \<and>
     depth (resultTree W E content) \<le> depthFuel content"
proof -
  from sanitizeDocument_main [of W E content]
  obtain d3 where d3: "sanitizeDocument W E content = Some d3"
    "holds d3 None (resultTree W E content)"
    "depth (resultTree W E content) \<le> depthFuel content"
    "nodeType d3 = nodeType (parseFromString content)"
    "nodeName d3 = nodeName (parseFromString content)"
    "nodeValue d3 = nodeValue (parseFromString content)"
    "attributes d3 =
       attributes (visited W E (set (walkOrder content)) (parseFromString content))"
    by blast
  have "attributes d3 n =
        (if n \<in> set (walkOrder content) \<and> keptAt (parseFromString content) n
         then attributes (normalizeLink n (stripAttributes W E n (parseFromString content))) n
         else attributes (parseFromString content) n)" for n
    by (simp add: d3(7) visited_attributes visit_attributes keptAt_info)
  then show ?thesis using d3 treeWalker_parse [of content] by blast
qed

section \<open>The claims\<close>

lemmas evalSimps = sanitizeForest_def forbiddenName_def allowedInfo_def toLowerCase.simps kelvinSign_def
  lowerChar_def forbiddenTags_def allowedTags_def visitAttrs_def normAttrs_def stripAttrs_def
  attrRejected_def isAllowedAttr_def startsWith_def Let_def

text \<open>
  Claim C1. The input \<^verbatim>\<open><img src="javascript:alert(1)">\<close> is said to come back with
  \<open>src\<close> stripped, and an \<open>href\<close> or \<open>src\<close> that is no valid web address (and no valid
  mailto link) is said not to survive. The code keeps the attribute, whatever the two validators
  answer: \<open>src\<close> is in the static list of \<open>img\<close>, so the callback returns at line 199 and
  the test of line 203 is never made.
\<close>

theorem C1_img_src_kept:
  "sanitizeHtml W E [Element ''IMG'' [(''src'', ''javascript:alert(1)'')] []] =
     Some [Element ''IMG'' [(''src'', ''javascript:alert(1)'')] []]"
  unfolding sanitizeHtml_eq by (simp add: evalSimps)

lemma normAttrs_forced:
  "map_of F ''href'' = Some h \<Longrightarrow> \<not> startsWith h ''mailto:'' \<Longrightarrow>
   normAttrs ''a'' F =
     setAttr ''rel'' ''external noopener noreferrer'' (setAttr ''target'' ''_blank'' F)"
  by (simp add: normAttrs_def)

lemma normAttrs_same:
  "tg \<noteq> ''a'' \<or> map_of F ''href'' = None \<or>
     (\<exists>h. map_of F ''href'' = Some h \<and> startsWith h ''mailto:'') \<Longrightarrow> normAttrs tg F = F"
  by (auto simp: normAttrs_def)

lemma anchor_attr_allowed:
  "isAllowedAttr ''a'' ''href''" "isAllowedAttr ''a'' ''rel''"
  by (simp_all add: isAllowedAttr_def)

text \<open>
  Claim C3. Every node the walk visits whose tag is \<open>a\<close> is kept. If the \<open>href\<close> it has
  after the attributes are filtered does not start with \<open>mailto:\<close>, the document ends with
  \<open>target = _blank\<close> and \<open>rel = external noopener noreferrer\<close> on it, whatever the input
  gave for either. If the \<open>href\<close> starts with \<open>mailto:\<close>, it is the one of the input, the
  node's attributes are exactly the filtered ones, there is no \<open>target\<close>, and \<open>rel\<close> is
  what the input gave.
\<close>

theorem C3_link_normalizer:
  "\<exists>ns doc.
     treeWalker (depthFuel content) (parseFromString content) body = Some ns \<and>
     sanitizeDocument W E content = Some doc \<and>
     (\<forall>n \<in> set ns. toLowerCase (nodeName (parseFromString content) n) = ''a'' \<longrightarrow>
        (\<forall>h. getAttribute (stripAttributes W E n (parseFromString content)) n ''href'' = Some h \<longrightarrow>
           (\<not> startsWith h ''mailto:'' \<longrightarrow>
              getAttribute doc n ''target'' = Some ''_blank'' \<and>
              getAttribute doc n ''rel'' = Some ''external noopener noreferrer'' \<and>
              getAttribute doc n ''href'' = Some h) \<and>
           (startsWith h ''mailto:'' \<longrightarrow>
              getAttribute (parseFromString content) n ''href'' = Some h \<and>
              getAttribute doc n ''href'' = Some h \<and>
              attributes doc n = attributes (stripAttributes W E n (parseFromString content)) n \<and>
              getAttribute doc n ''target'' = None \<and>
              getAttribute doc n ''rel'' = getAttribute (parseFromString content) n ''rel'')))"
proof -
  let ?d = "parseFromString content"
  from sanitizeDocument_nodes [of content W E]
  obtain doc where walk: "treeWalker (depthFuel content) ?d body = Some (walkOrder content)"
    and run: "sanitizeDocument W E content = Some doc"
    and attrs: "\<And>n. attributes doc n =
        (if n \<in> set (walkOrder content) \<and> keptAt ?d n
         then attributes (normalizeLink n (stripAttributes W E n ?d)) n
         else attributes ?d n)"
    by blast
  have "(\<not> startsWith h ''mailto:'' \<longrightarrow>
              getAttribute doc n ''target'' = Some ''_blank'' \<and>
              getAttribute doc n ''rel'' = Some ''external noopener noreferrer'' \<and>
              getAttribute doc n ''href'' = Some h) \<and>
           (startsWith h ''mailto:'' \<longrightarrow>
              getAttribute ?d n ''href'' = Some h \<and>
              getAttribute doc n ''href'' = Some h \<and>
              attributes doc n = attributes (stripAttributes W E n ?d) n \<and>
              getAttribute doc n ''target'' = None \<and>
              getAttribute doc n ''rel'' = getAttribute ?d n ''rel'')"
    if n: "n \<in> set (walkOrder content)" and a: "toLowerCase (nodeName ?d n) = ''a''"
      and h: "getAttribute (stripAttributes W E n ?d) n ''href'' = Some h" for n h
  proof -
    let ?F = "stripAttrs W E ''a'' (attributes ?d n)"
    have fin: "attributes doc n = normAttrs ''a'' ?F"
      using n anchor_kept [OF a] a by (simp add: attrs visit_attributes visitAttrs_def)
    have F: "attributes (stripAttributes W E n ?d) n = ?F"
      by (simp add: strip_attributes a)
    have hF: "map_of ?F ''href'' = Some h"
      using h by (simp add: getAttribute_def F)
    have h0: "map_of (attributes ?d n) ''href'' = Some h"
      using hF by (simp add: stripAttrs_allowed anchor_attr_allowed)
    show ?thesis
    proof (cases "startsWith h ''mailto:''")
      case True
      then have "normAttrs ''a'' ?F = ?F" using hF by (intro normAttrs_same) simp
      then show ?thesis
        using True hF h0
        by (simp add: getAttribute_def fin F stripAttrs_target stripAttrs_allowed anchor_attr_allowed)
    next
      case False
      from normAttrs_forced [OF hF False] show ?thesis
        using False hF by (simp add: getAttribute_def fin map_of_setAttr)
    qed
  qed
  then show ?thesis using walk run by blast
qed

lemma lower_A [simp]: "toLowerCase ''A'' = ''a''"
  by (simp add: toLowerCase.simps kelvinSign_def lowerChar_def)

lemma parse_first:
  "nodeName (parseFromString (Element nm as cs # rest)) (Suc 0) = nm"
  "attributes (parseFromString (Element nm as cs # rest)) (Suc 0) = as"
  using parse_holds [of "Element nm as cs # rest"] by (simp_all add: bodyTree_def body_def)

lemmas attrSimps = getAttribute_def strip_attributes stripAttrs_def attrRejected_def
  isAllowedAttr_def

theorem C3_link_normalizer_witness:
  "(\<exists>doc. sanitizeDocument demoWebUri demoEmail
            [Element ''A'' [(''href'', ''https://example.com''), (''onclick'', ''evil()''),
                            (''rel'', ''me'')] [Text ''text'']] = Some doc \<and>
          getAttribute doc 1 ''target'' = Some ''_blank'' \<and>
          getAttribute doc 1 ''rel'' = Some ''external noopener noreferrer'' \<and>
          getAttribute doc 1 ''href'' = Some ''https://example.com'') \<and>
   (\<exists>doc. sanitizeDocument demoWebUri demoEmail
            [Element ''A'' [(''href'', ''mailto:user@example.com'')] [Text ''mail'']] = Some doc \<and>
          getAttribute doc 1 ''href'' = Some ''mailto:user@example.com'' \<and>
          getAttribute doc 1 ''target'' = None \<and>
          getAttribute doc 1 ''rel'' = None)"
proof
  let ?X = "[Element ''A'' [(''href'', ''https://example.com''), (''onclick'', ''evil()''),
                            (''rel'', ''me'')] [Text ''text'']]"
  let ?d = "parseFromString ?X"
  from C3_link_normalizer [of ?X demoWebUri demoEmail]
  obtain ns doc where w: "treeWalker (depthFuel ?X) ?d body = Some ns"
    and r: "sanitizeDocument demoWebUri demoEmail ?X = Some doc"
    and p: "\<forall>n \<in> set ns. toLowerCase (nodeName ?d n) = ''a'' \<longrightarrow>
        (\<forall>h. getAttribute (stripAttributes demoWebUri demoEmail n ?d) n ''href'' = Some h \<longrightarrow>
           (\<not> startsWith h ''mailto:'' \<longrightarrow>
              getAttribute doc n ''target'' = Some ''_blank'' \<and>
              getAttribute doc n ''rel'' = Some ''external noopener noreferrer'' \<and>
              getAttribute doc n ''href'' = Some h) \<and>
           (startsWith h ''mailto:'' \<longrightarrow>
              getAttribute ?d n ''href'' = Some h \<and>
              getAttribute doc n ''href'' = Some h \<and>
              attributes doc n = attributes (stripAttributes demoWebUri demoEmail n ?d) n \<and>
              getAttribute doc n ''target'' = None \<and>
              getAttribute doc n ''rel'' = getAttribute ?d n ''rel''))"
    by blast
  have ns: "1 \<in> set ns"
    using w by (auto simp: treeWalker_parse walkOrder_def)
  have h: "getAttribute (stripAttributes demoWebUri demoEmail 1 ?d) 1 ''href'' = Some ''https://example.com''"
    by (simp add: parse_first attrSimps)
  have "\<not> startsWith ''https://example.com'' ''mailto:''" by (simp add: startsWith_def)
  moreover have a: "toLowerCase (nodeName ?d 1) = ''a''" by (simp add: parse_first)
  note q = mp [OF spec [OF mp [OF bspec [OF p ns] a]] h]
  ultimately have "getAttribute doc 1 ''target'' = Some ''_blank'' \<and>
          getAttribute doc 1 ''rel'' = Some ''external noopener noreferrer'' \<and>
          getAttribute doc 1 ''href'' = Some ''https://example.com''"
    using conjunct1 [OF q] by blast
  with r show "\<exists>doc. sanitizeDocument demoWebUri demoEmail ?X = Some doc \<and>
          getAttribute doc 1 ''target'' = Some ''_blank'' \<and>
          getAttribute doc 1 ''rel'' = Some ''external noopener noreferrer'' \<and>
          getAttribute doc 1 ''href'' = Some ''https://example.com''"
    by blast
next
  let ?X = "[Element ''A'' [(''href'', ''mailto:user@example.com'')] [Text ''mail'']]"
  let ?d = "parseFromString ?X"
  from C3_link_normalizer [of ?X demoWebUri demoEmail]
  obtain ns doc where w: "treeWalker (depthFuel ?X) ?d body = Some ns"
    and r: "sanitizeDocument demoWebUri demoEmail ?X = Some doc"
    and p: "\<forall>n \<in> set ns. toLowerCase (nodeName ?d n) = ''a'' \<longrightarrow>
        (\<forall>h. getAttribute (stripAttributes demoWebUri demoEmail n ?d) n ''href'' = Some h \<longrightarrow>
           (\<not> startsWith h ''mailto:'' \<longrightarrow>
              getAttribute doc n ''target'' = Some ''_blank'' \<and>
              getAttribute doc n ''rel'' = Some ''external noopener noreferrer'' \<and>
              getAttribute doc n ''href'' = Some h) \<and>
           (startsWith h ''mailto:'' \<longrightarrow>
              getAttribute ?d n ''href'' = Some h \<and>
              getAttribute doc n ''href'' = Some h \<and>
              attributes doc n = attributes (stripAttributes demoWebUri demoEmail n ?d) n \<and>
              getAttribute doc n ''target'' = None \<and>
              getAttribute doc n ''rel'' = getAttribute ?d n ''rel''))"
    by blast
  have ns: "1 \<in> set ns"
    using w by (auto simp: treeWalker_parse walkOrder_def)
  have h: "getAttribute (stripAttributes demoWebUri demoEmail 1 ?d) 1 ''href'' = Some ''mailto:user@example.com''"
    by (simp add: parse_first attrSimps)
  have m: "startsWith ''mailto:user@example.com'' ''mailto:''" by (simp add: startsWith_def)
  have rel0: "getAttribute ?d 1 ''rel'' = None" by (simp add: getAttribute_def parse_first)
  have a: "toLowerCase (nodeName ?d 1) = ''a''" by (simp add: parse_first)
  note q = mp [OF conjunct2 [OF mp [OF spec [OF mp [OF bspec [OF p ns] a]] h]] m]
  then have "getAttribute doc 1 ''href'' = Some ''mailto:user@example.com'' \<and>
          getAttribute doc 1 ''target'' = None \<and>
          getAttribute doc 1 ''rel'' = getAttribute ?d 1 ''rel''"
    by blast
  with r rel0 show "\<exists>doc. sanitizeDocument demoWebUri demoEmail ?X = Some doc \<and>
          getAttribute doc 1 ''href'' = Some ''mailto:user@example.com'' \<and>
          getAttribute doc 1 ''target'' = None \<and>
          getAttribute doc 1 ''rel'' = None"
    by simp
qed

text \<open>
  Claim C9. \<open>href\<close> is in the static list of \<open>a\<close>, so the filter never removes it from
  an anchor: after the filter, and at the end of the run, the \<open>href\<close> is the one of the
  input. \<^verbatim>\<open><a href="javascript:alert(1)">\<close> keeps its \<open>href\<close> and gets the forced
  \<open>target\<close> and \<open>rel\<close>; \<^verbatim>\<open><a href="mailto:not-an-email">\<close> keeps its \<open>href\<close>.
\<close>

theorem C9_anchor_href_kept:
  "isAllowedAttr ''a'' ''href'' \<and>
   (\<exists>ns doc.
      treeWalker (depthFuel content) (parseFromString content) body = Some ns \<and>
      sanitizeDocument W E content = Some doc \<and>
      (\<forall>n \<in> set ns. toLowerCase (nodeName (parseFromString content) n) = ''a'' \<longrightarrow>
         getAttribute (stripAttributes W E n (parseFromString content)) n ''href'' =
           getAttribute (parseFromString content) n ''href'' \<and>
         getAttribute doc n ''href'' = getAttribute (parseFromString content) n ''href'')) \<and>
   sanitizeHtml W E [Element ''A'' [(''href'', ''javascript:alert(1)'')] []] =
     Some [Element ''A'' [(''href'', ''javascript:alert(1)''), (''target'', ''_blank''),
                          (''rel'', ''external noopener noreferrer'')] []] \<and>
   sanitizeHtml W E [Element ''A'' [(''href'', ''mailto:not-an-email'')] []] =
     Some [Element ''A'' [(''href'', ''mailto:not-an-email'')] []]"
proof (intro conjI)
  show "isAllowedAttr ''a'' ''href''" by (simp add: isAllowedAttr_def)
  show "sanitizeHtml W E [Element ''A'' [(''href'', ''javascript:alert(1)'')] []] =
     Some [Element ''A'' [(''href'', ''javascript:alert(1)''), (''target'', ''_blank''),
                          (''rel'', ''external noopener noreferrer'')] []]"
    unfolding sanitizeHtml_eq by (simp add: evalSimps)
  show "sanitizeHtml W E [Element ''A'' [(''href'', ''mailto:not-an-email'')] []] =
     Some [Element ''A'' [(''href'', ''mailto:not-an-email'')] []]"
    unfolding sanitizeHtml_eq by (simp add: evalSimps)
  let ?d = "parseFromString content"
  from sanitizeDocument_nodes [of content W E]
  obtain doc where walk: "treeWalker (depthFuel content) ?d body = Some (walkOrder content)"
    and run: "sanitizeDocument W E content = Some doc"
    and attrs: "\<And>n. attributes doc n =
        (if n \<in> set (walkOrder content) \<and> keptAt ?d n
         then attributes (normalizeLink n (stripAttributes W E n ?d)) n
         else attributes ?d n)"
    by blast
  have "getAttribute (stripAttributes W E n ?d) n ''href'' = getAttribute ?d n ''href'' \<and>
        getAttribute doc n ''href'' = getAttribute ?d n ''href''"
    if n: "n \<in> set (walkOrder content)" and a: "toLowerCase (nodeName ?d n) = ''a''" for n
  proof -
    let ?F = "stripAttrs W E ''a'' (attributes ?d n)"
    have fin: "attributes doc n = normAttrs ''a'' ?F"
      using n anchor_kept [OF a] a by (simp add: attrs visit_attributes visitAttrs_def)
    have hF: "map_of ?F ''href'' = map_of (attributes ?d n) ''href''"
      by (simp add: stripAttrs_allowed anchor_attr_allowed)
    have "map_of (normAttrs ''a'' ?F) ''href'' = map_of ?F ''href''"
      by (simp add: normAttrs_def map_of_setAttr split: option.splits)
    then show ?thesis
      using hF by (simp add: getAttribute_def fin strip_attributes a)
  qed
  then show "\<exists>ns doc.
      treeWalker (depthFuel content) ?d body = Some ns \<and>
      sanitizeDocument W E content = Some doc \<and>
      (\<forall>n \<in> set ns. toLowerCase (nodeName ?d n) = ''a'' \<longrightarrow>
         getAttribute (stripAttributes W E n ?d) n ''href'' = getAttribute ?d n ''href'' \<and>
         getAttribute doc n ''href'' = getAttribute ?d n ''href'')"
    using walk run by blast
qed

theorem C9_anchor_href_kept_witness:
  "\<exists>doc. sanitizeDocument demoWebUri demoEmail
           [Element ''A'' [(''href'', ''javascript:alert(1)''), (''onclick'', ''evil()'')] []] = Some doc \<and>
         getAttribute doc 1 ''href'' = Some ''javascript:alert(1)''"
proof -
  let ?X = "[Element ''A'' [(''href'', ''javascript:alert(1)''), (''onclick'', ''evil()'')] []]"
  let ?d = "parseFromString ?X"
  from C9_anchor_href_kept [of ?X demoWebUri demoEmail]
  obtain ns doc where w: "treeWalker (depthFuel ?X) ?d body = Some ns"
    and r: "sanitizeDocument demoWebUri demoEmail ?X = Some doc"
    and p: "\<forall>n \<in> set ns. toLowerCase (nodeName ?d n) = ''a'' \<longrightarrow>
         getAttribute (stripAttributes demoWebUri demoEmail n ?d) n ''href'' =
           getAttribute ?d n ''href'' \<and>
         getAttribute doc n ''href'' = getAttribute ?d n ''href''"
    by blast
  have ns: "1 \<in> set ns"
    using w by (auto simp: treeWalker_parse walkOrder_def)
  have a: "toLowerCase (nodeName ?d 1) = ''a''" by (simp add: parse_first)
  have "getAttribute ?d 1 ''href'' = Some ''javascript:alert(1)''"
    by (simp add: getAttribute_def parse_first)
  with conjunct2 [OF mp [OF bspec [OF p ns] a]] r show ?thesis by simp
qed

text \<open>
  Claim C10. The callback rejects every attribute named \<open>target\<close>, on every tag. A kept
  node therefore has no \<open>target\<close> after the filter, and has none at the end of the run
  unless it is an anchor whose filtered \<open>href\<close> is present and does not start with
  \<open>mailto:\<close>.
\<close>

theorem C10_target_stripped:
  "(\<forall>tg v. attrRejected W E tg (''target'', v)) \<and>
   (\<exists>ns doc.
      treeWalker (depthFuel content) (parseFromString content) body = Some ns \<and>
      sanitizeDocument W E content = Some doc \<and>
      (\<forall>n \<in> set ns.
         \<not> isForbidden (parseFromString content) n \<and> isAllowedTag (parseFromString content) n \<longrightarrow>
         getAttribute (stripAttributes W E n (parseFromString content)) n ''target'' = None \<and>
         (toLowerCase (nodeName (parseFromString content) n) \<noteq> ''a'' \<or>
          getAttribute (stripAttributes W E n (parseFromString content)) n ''href'' = None \<or>
          (\<exists>h. getAttribute (stripAttributes W E n (parseFromString content)) n ''href'' = Some h \<and>
               startsWith h ''mailto:'') \<longrightarrow>
          getAttribute doc n ''target'' = None)))"
proof (intro conjI)
  show "\<forall>tg v. attrRejected W E tg (''target'', v)" by (simp add: target_rejected)
  let ?d = "parseFromString content"
  from sanitizeDocument_nodes [of content W E]
  obtain doc where walk: "treeWalker (depthFuel content) ?d body = Some (walkOrder content)"
    and run: "sanitizeDocument W E content = Some doc"
    and attrs: "\<And>n. attributes doc n =
        (if n \<in> set (walkOrder content) \<and> keptAt ?d n
         then attributes (normalizeLink n (stripAttributes W E n ?d)) n
         else attributes ?d n)"
    by blast
  have "getAttribute (stripAttributes W E n ?d) n ''target'' = None \<and>
         (toLowerCase (nodeName ?d n) \<noteq> ''a'' \<or>
          getAttribute (stripAttributes W E n ?d) n ''href'' = None \<or>
          (\<exists>h. getAttribute (stripAttributes W E n ?d) n ''href'' = Some h \<and>
               startsWith h ''mailto:'') \<longrightarrow>
          getAttribute doc n ''target'' = None)"
    if n: "n \<in> set (walkOrder content)" and k: "\<not> isForbidden ?d n \<and> isAllowedTag ?d n" for n
  proof -
    let ?tg = "toLowerCase (nodeName ?d n)"
    let ?F = "stripAttrs W E ?tg (attributes ?d n)"
    have fin: "attributes doc n = normAttrs ?tg ?F"
      using n k by (simp add: attrs visit_attributes visitAttrs_def keptAt_def)
    have t: "getAttribute (stripAttributes W E n ?d) n ''target'' = None"
      by (simp add: getAttribute_def strip_attributes stripAttrs_target)
    have "getAttribute doc n ''target'' = None"
      if "?tg \<noteq> ''a'' \<or> getAttribute (stripAttributes W E n ?d) n ''href'' = None \<or>
          (\<exists>h. getAttribute (stripAttributes W E n ?d) n ''href'' = Some h \<and>
               startsWith h ''mailto:'')"
    proof -
      have "normAttrs ?tg ?F = ?F"
        using that by (intro normAttrs_same) (simp add: getAttribute_def strip_attributes)
      then show ?thesis by (simp add: getAttribute_def fin stripAttrs_target)
    qed
    with t show ?thesis by blast
  qed
  then show "\<exists>ns doc.
      treeWalker (depthFuel content) ?d body = Some ns \<and>
      sanitizeDocument W E content = Some doc \<and>
      (\<forall>n \<in> set ns.
         \<not> isForbidden ?d n \<and> isAllowedTag ?d n \<longrightarrow>
         getAttribute (stripAttributes W E n ?d) n ''target'' = None \<and>
         (toLowerCase (nodeName ?d n) \<noteq> ''a'' \<or>
          getAttribute (stripAttributes W E n ?d) n ''href'' = None \<or>
          (\<exists>h. getAttribute (stripAttributes W E n ?d) n ''href'' = Some h \<and>
               startsWith h ''mailto:'') \<longrightarrow>
          getAttribute doc n ''target'' = None))"
    using walk run by blast
qed

theorem C10_target_stripped_witness:
  "\<exists>doc. sanitizeDocument demoWebUri demoEmail
           [Element ''A'' [(''href'', ''mailto:user@example.com''), (''target'', ''_self'')] []] = Some doc \<and>
         getAttribute (parseFromString
           [Element ''A'' [(''href'', ''mailto:user@example.com''), (''target'', ''_self'')] []]) 1 ''target'' =
           Some ''_self'' \<and>
         getAttribute doc 1 ''target'' = None"
proof -
  let ?X = "[Element ''A'' [(''href'', ''mailto:user@example.com''), (''target'', ''_self'')] []]"
  let ?d = "parseFromString ?X"
  from C10_target_stripped [of demoWebUri demoEmail ?X]
  obtain ns doc where w: "treeWalker (depthFuel ?X) ?d body = Some ns"
    and r: "sanitizeDocument demoWebUri demoEmail ?X = Some doc"
    and p: "\<forall>n \<in> set ns.
         \<not> isForbidden ?d n \<and> isAllowedTag ?d n \<longrightarrow>
         getAttribute (stripAttributes demoWebUri demoEmail n ?d) n ''target'' = None \<and>
         (toLowerCase (nodeName ?d n) \<noteq> ''a'' \<or>
          getAttribute (stripAttributes demoWebUri demoEmail n ?d) n ''href'' = None \<or>
          (\<exists>h. getAttribute (stripAttributes demoWebUri demoEmail n ?d) n ''href'' = Some h \<and>
               startsWith h ''mailto:'') \<longrightarrow>
          getAttribute doc n ''target'' = None)"
    by blast
  have ns: "1 \<in> set ns"
    using w by (auto simp: treeWalker_parse walkOrder_def)
  have a: "toLowerCase (nodeName ?d 1) = ''a''" by (simp add: parse_first)
  have k: "\<not> isForbidden ?d 1 \<and> isAllowedTag ?d 1"
    using anchor_kept [OF a] by (simp add: keptAt_def)
  have h: "getAttribute (stripAttributes demoWebUri demoEmail 1 ?d) 1 ''href'' =
      Some ''mailto:user@example.com'' \<and> startsWith ''mailto:user@example.com'' ''mailto:''"
    by (simp add: parse_first attrSimps startsWith_def)
  have t0: "getAttribute ?d 1 ''target'' = Some ''_self''"
    by (simp add: getAttribute_def parse_first)
  from h have "toLowerCase (nodeName ?d 1) \<noteq> ''a'' \<or>
          getAttribute (stripAttributes demoWebUri demoEmail 1 ?d) 1 ''href'' = None \<or>
          (\<exists>h. getAttribute (stripAttributes demoWebUri demoEmail 1 ?d) 1 ''href'' = Some h \<and>
               startsWith h ''mailto:'')"
    by blast
  with conjunct2 [OF mp [OF bspec [OF p ns] k]] have "getAttribute doc 1 ''target'' = None"
    by blast
  with r t0 show ?thesis by simp
qed

declare sanitizeTree.simps(1) [simp del]

lemmas evalTree = sanitizeTree.simps(1) evalSimps

lemma sanitizeForest_append:
  "sanitizeForest W E (xs @ ys) = sanitizeForest W E xs @ sanitizeForest W E ys"
  by (simp add: sanitizeForest_def)

lemma sanitizeForest_Cons:
  "sanitizeForest W E (x # xs) = sanitizeTree W E x @ sanitizeForest W E xs"
  by (simp add: sanitizeForest_def)

lemma sanitizeForest_Nil [simp]: "sanitizeForest W E [] = []"
  by (simp add: sanitizeForest_def)

lemma sanitizeTree_Element:
  "sanitizeTree W E (Element nm as cs) =
     (if forbiddenName nm then []
      else if \<not> allowedInfo nm as then sanitizeForest W E cs
      else [Element nm (visitAttrs W E (toLowerCase nm) as) (sanitizeForest W E cs)])"
  by (simp add: sanitizeForest_def sanitizeTree.simps(1))

lemma sanitizeForest_plug:
  "sanitizeForest W E xs = sanitizeForest W E ys \<Longrightarrow>
   sanitizeForest W E (plug c xs) = sanitizeForest W E (plug c ys)"
proof (induction c)
  case Nil
  then show ?case by simp
next
  case (Cons f c)
  obtain pre nm as post where f: "f = (pre, nm, as, post)" by (cases f)
  show ?case
    using Cons.IH [OF Cons.prems]
    by (simp add: f sanitizeForest_append sanitizeForest_Cons sanitizeTree_Element)
qed

lemma normAttrs_other: "tg \<noteq> ''a'' \<Longrightarrow> normAttrs tg F = F"
  by (simp add: normAttrs_def)

lemma allowedInfo_visitAttrs:
  "allowedInfo nm as \<Longrightarrow> allowedInfo nm (visitAttrs W E (toLowerCase nm) as)"
proof (cases "toLowerCase nm = ''input''")
  case True
  assume "allowedInfo nm as"
  moreover have "map_of (visitAttrs W E ''input'' as) ''type'' = map_of as ''type''"
    by (simp add: visitAttrs_def normAttrs_other stripAttrs_allowed isAllowedAttr_def)
  ultimately show ?thesis using True by (simp add: allowedInfo_def)
next
  case False
  assume "allowedInfo nm as"
  then show ?thesis using False by (auto simp: allowedInfo_def)
qed

lemma sanitizeTree_allowed:
  "\<forall>t \<in> set (sanitizeTree W E x).
     allElements (\<lambda>nm as. \<not> forbiddenName nm \<and> allowedInfo nm as) t"
proof (induction x)
  case (Element nm as cs)
  have "\<forall>t \<in> set (concat (map (sanitizeTree W E) cs)).
     allElements (\<lambda>nm as. \<not> forbiddenName nm \<and> allowedInfo nm as) t"
    using Element.IH by auto
  then show ?case by (simp add: allowedInfo_visitAttrs sanitizeTree.simps(1))
qed simp_all

lemma sanitizeForest_allowed:
  "\<forall>t \<in> set (sanitizeForest W E xs).
     allElements (\<lambda>nm as. \<not> forbiddenName nm \<and> allowedInfo nm as) t"
proof (induction xs)
  case Nil
  show ?case by simp
next
  case (Cons x xs)
  show ?case
    using Cons.IH sanitizeTree_allowed [of W E x]
    by (simp only: sanitizeForest_Cons set_append ball_Un)
qed

lemma lower_kelvin:
  "toLowerCase (''LIN'' @ kelvinSign) = ''link''"
  "toLowerCase (''BLOC'' @ kelvinSign @ ''QUOTE'') = ''blockquote''"
  by (simp_all add: toLowerCase.simps kelvinSign_def lowerChar_def)



lemma stripAttrs_keeps:
  "a \<in> set as \<Longrightarrow> isAllowedAttr tg (fst a) \<Longrightarrow> a \<in> set (stripAttrs W E tg as)"
  using allowed_not_rejected [of tg "fst a" W E as] by (simp add: stripAttrs_def)

lemma input_attr_allowed:
  "isAllowedAttr ''input'' ''checked''" "isAllowedAttr ''input'' ''type''"
  by (simp_all add: isAllowedAttr_def)

lemma input_not_forbidden: "toLowerCase nm = ''input'' \<Longrightarrow> \<not> forbiddenName nm"
  by (simp add: forbiddenName_def forbiddenTags_def)

text \<open>
  Claim C7. A node named \<open>input\<close> is allowed exactly when its \<open>type\<close> attribute is
  \<open>checkbox\<close>. Such an element is kept and every \<open>checked\<close> and \<open>type\<close> attribute
  of the input is among the attributes of the output; any other \<open>input\<close> element gives
  the output of its children alone. The two examples of the specification follow.
\<close>

theorem C7_checkbox_only:
  "(toLowerCase (nodeName d n) = ''input'' \<longrightarrow>
      isAllowedTag d n = (getAttribute d n ''type'' = Some ''checkbox'')) \<and>
   (toLowerCase nm = ''input'' \<longrightarrow>
      (map_of as ''type'' = Some ''checkbox'' \<longrightarrow>
         (\<exists>as' cs'. sanitizeHtml W E [Element nm as cs] = Some [Element nm as' cs'] \<and>
            sanitizeHtml W E cs = Some cs' \<and>
            (\<forall>a \<in> set as. fst a = ''checked'' \<or> fst a = ''type'' \<longrightarrow> a \<in> set as'))) \<and>
      (map_of as ''type'' \<noteq> Some ''checkbox'' \<longrightarrow>
         sanitizeHtml W E [Element nm as cs] = sanitizeHtml W E cs)) \<and>
   sanitizeHtml W E [Element ''INPUT'' [(''type'', ''checkbox''), (''checked'', '''')] []] =
     Some [Element ''INPUT'' [(''type'', ''checkbox''), (''checked'', '''')] []] \<and>
   sanitizeHtml W E [Element ''INPUT'' [(''type'', ''text'')] []] = Some []"
proof (intro conjI impI)
  assume "toLowerCase (nodeName d n) = ''input''"
  then show "isAllowedTag d n = (getAttribute d n ''type'' = Some ''checkbox'')"
    by (auto simp: isAllowedTag_def)
next
  assume i: "toLowerCase nm = ''input''" and t: "map_of as ''type'' = Some ''checkbox''"
  have al: "allowedInfo nm as" using i t by (simp add: allowedInfo_def)
  have "a \<in> set (visitAttrs W E ''input'' as)"
    if "a \<in> set as" "fst a = ''checked'' \<or> fst a = ''type''" for a
  proof -
    have "isAllowedAttr ''input'' (fst a)" using that(2) input_attr_allowed by auto
    from stripAttrs_keeps [OF that(1) this] show ?thesis
      by (simp add: visitAttrs_def normAttrs_other)
  qed
  then have "\<forall>a \<in> set as. fst a = ''checked'' \<or> fst a = ''type'' \<longrightarrow>
      a \<in> set (visitAttrs W E ''input'' as)"
    by blast
  then show "\<exists>as' cs'. sanitizeHtml W E [Element nm as cs] = Some [Element nm as' cs'] \<and>
            sanitizeHtml W E cs = Some cs' \<and>
            (\<forall>a \<in> set as. fst a = ''checked'' \<or> fst a = ''type'' \<longrightarrow> a \<in> set as')"
    unfolding sanitizeHtml_eq using al i input_not_forbidden [OF i]
    by (simp add: sanitizeForest_Cons sanitizeTree_Element)
next
  assume i: "toLowerCase nm = ''input''" and t: "map_of as ''type'' \<noteq> Some ''checkbox''"
  have "\<not> allowedInfo nm as" using i t by (auto simp: allowedInfo_def)
  then show "sanitizeHtml W E [Element nm as cs] = sanitizeHtml W E cs"
    unfolding sanitizeHtml_eq using input_not_forbidden [OF i]
    by (simp add: sanitizeForest_Cons sanitizeTree_Element)
next
  show "sanitizeHtml W E [Element ''INPUT'' [(''type'', ''checkbox''), (''checked'', '''')] []] =
     Some [Element ''INPUT'' [(''type'', ''checkbox''), (''checked'', '''')] []]"
    unfolding sanitizeHtml_eq by (simp add: evalTree)
  show "sanitizeHtml W E [Element ''INPUT'' [(''type'', ''text'')] []] = Some []"
    unfolding sanitizeHtml_eq by (simp add: evalTree)
qed

lemma lower_INPUT [simp]: "toLowerCase ''INPUT'' = ''input''"
  by (simp add: toLowerCase.simps kelvinSign_def lowerChar_def)

theorem C7_checkbox_only_witness:
  "(\<exists>as' cs'. sanitizeHtml demoWebUri demoEmail
       [Element ''INPUT'' [(''type'', ''checkbox''), (''onclick'', ''evil()''), (''checked'', '''')] []] =
         Some [Element ''INPUT'' as' cs'] \<and>
       (''type'', ''checkbox'') \<in> set as' \<and> (''checked'', '''') \<in> set as') \<and>
   sanitizeHtml demoWebUri demoEmail [Element ''INPUT'' [(''type'', ''radio'')] [Text ''x'']] =
     sanitizeHtml demoWebUri demoEmail [Text ''x'']"
proof
  let ?as = "[(''type'', ''checkbox''), (''onclick'', ''evil()''), (''checked'', '''')]"
  have t: "map_of ?as ''type'' = Some ''checkbox''" by simp
  note c = conjunct1 [OF conjunct2 [OF C7_checkbox_only [of _ _ "''INPUT''" ?as demoWebUri demoEmail "[]"]]]
  from mp [OF conjunct1 [OF mp [OF c lower_INPUT]] t]
  obtain as' cs' where o: "sanitizeHtml demoWebUri demoEmail [Element ''INPUT'' ?as []] =
      Some [Element ''INPUT'' as' cs']"
    "\<forall>a \<in> set ?as. fst a = ''checked'' \<or> fst a = ''type'' \<longrightarrow> a \<in> set as'"
    by blast
  from o(2) have "(''type'', ''checkbox'') \<in> set as' \<and> (''checked'', '''') \<in> set as'" by simp
  with o(1) show "\<exists>as' cs'. sanitizeHtml demoWebUri demoEmail [Element ''INPUT'' ?as []] =
         Some [Element ''INPUT'' as' cs'] \<and>
       (''type'', ''checkbox'') \<in> set as' \<and> (''checked'', '''') \<in> set as'"
    by blast
next
  have t: "map_of [(''type'', ''radio'')] ''type'' \<noteq> Some ''checkbox''" by simp
  note c = conjunct1 [OF conjunct2 [OF C7_checkbox_only
        [of _ _ "''INPUT''" "[(''type'', ''radio'')]" demoWebUri demoEmail "[Text ''x'']"]]]
  from mp [OF conjunct2 [OF mp [OF c lower_INPUT]] t]
  show "sanitizeHtml demoWebUri demoEmail [Element ''INPUT'' [(''type'', ''radio'')] [Text ''x'']] =
     sanitizeHtml demoWebUri demoEmail [Text ''x'']" .
qed

lemma filter_rejected_names:
  assumes "distinct (map fst as)"
  shows "filter (\<lambda>b. fst b \<notin> fst ` set (filter P as)) as = filter (\<lambda>b. \<not> P b) as"
proof (rule filter_cong [OF refl])
  fix b assume b: "b \<in> set as"
  have inj: "inj_on fst (set as)" using assms by (simp add: distinct_map)
  show "(fst b \<notin> fst ` set (filter P as)) = (\<not> P b)"
  proof
    assume "fst b \<notin> fst ` set (filter P as)"
    then show "\<not> P b" using b by force
  next
    assume np: "\<not> P b"
    show "fst b \<notin> fst ` set (filter P as)"
    proof
      assume "fst b \<in> fst ` set (filter P as)"
      then obtain x where x: "x \<in> set as" "P x" "fst x = fst b" by auto
      then have "x = b" using inj b by (auto dest: inj_onD)
      then show False using x np by simp
    qed
  qed
qed


lemma lower_DIV [simp]: "toLowerCase ''DIV'' = ''div''"
  by (simp add: toLowerCase.simps kelvinSign_def lowerChar_def)


lemma sanitizeForest_not_forbidden:
  "\<forall>t \<in> set (sanitizeForest W E xs).
     allElements (\<lambda>nm as. toLowerCase nm \<notin> set forbiddenTags) t"
proof -
  have weaker: "allElements (\<lambda>nm as. \<not> forbiddenName nm \<and> allowedInfo nm as) t \<Longrightarrow>
      allElements (\<lambda>nm as. toLowerCase nm \<notin> set forbiddenTags) t" for t
    by (induction t) (simp_all add: forbiddenName_def)
  show ?thesis using sanitizeForest_allowed [of W E xs] weaker by blast
qed



lemma forEachM_append:
  "forEachM f (xs @ ys) s =
     (case forEachM f xs s of None \<Rightarrow> None | Some s' \<Rightarrow> forEachM f ys s')"
  by (induction xs arbitrary: s) (simp_all split: option.splits)

lemma pruneT_id: "(\<And>m. m \<in> set (idsF (kids t)) \<Longrightarrow> m \<notin> F) \<Longrightarrow> pruneT F t = t"
proof (induction t)
  case (DNode n ty nm v as ks)
  have keep: "nid k \<notin> F" if "k \<in> set ks" for k
  proof -
    have "nid k \<in> set (idsF ks)" unfolding in_idsF using that nid_in_ids by blast
    then show ?thesis using DNode.prems by simp
  qed
  have same: "pruneT F k = k" if k: "k \<in> set ks" for k
  proof (rule DNode.IH [OF k])
    fix m assume "m \<in> set (idsF (kids k))"
    then have "m \<in> set (ids k)" by (rule idsF_kids_subset)
    then have "m \<in> set (idsF ks)" unfolding in_idsF using k by blast
    then show "m \<notin> F" using DNode.prems by simp
  qed
  have "filter (\<lambda>k. nid k \<notin> F) ks = ks" using keep by (simp add: filter_id_conv)
  moreover have "map (pruneT F) ks = ks" using same by (intro map_idI)
  ultimately show ?case by simp
qed

lemma walkedTree_ids: "ids (walkedTree W E content) = ids (bodyTree content)"
  by (simp add: walkedTree_def bodyTree_def comp_def idsF_def)

lemma depth_walked_sub:
  assumes "distinct (ids t)" "set (ids t) \<subseteq> set (ids (walkedTree W E content))"
  shows "depth t \<le> depthFuel content"
proof -
  have "depth t \<le> length (ids (bodyTree content))"
    using assms by (intro depth_bound) (simp_all add: walkedTree_ids)
  then show ?thesis using length_ids_bodyTree [of content] by simp
qed

text \<open>
  Claim C8. The walk changes no parent and no child list. The run is the walk, then
  \<open>eliminateNode\<close> on every node of \<open>forbiddenList\<close>, then \<open>unwrapNode\<close> on every node of
  \<open>removeList\<close>, and it always ends with a document. When the turn of a queued node comes and
  the node is no longer below the body, the turn leaves what \<open>innerHTML\<close> of the body prints
  as it is, and the next node is processed.
\<close>

theorem C8_deferred_removal:
  "\<exists>doc1 removeList forbiddenList doc3.
     walkDocument W E content = Some (doc1, removeList, forbiddenList) \<and>
     parentNode doc1 = parentNode (parseFromString content) \<and>
     childNodes doc1 = childNodes (parseFromString content) \<and>
     forEachM unwrapNode removeList (fold eliminateNode forbiddenList doc1) = Some doc3 \<and>
     sanitizeDocument W E content = Some doc3 \<and>
     (\<exists>out. sanitizeHtml W E content = Some out) \<and>
     (\<forall>xs f ys ns.
        forbiddenList = xs @ f # ys \<and>
        treeWalker (depthFuel content) (fold eliminateNode xs doc1) body = Some ns \<and>
        f \<notin> set ns \<longrightarrow>
        innerHTML (depthFuel content) (eliminateNode f (fold eliminateNode xs doc1)) body =
          innerHTML (depthFuel content) (fold eliminateNode xs doc1) body \<and>
        innerHTML (depthFuel content) (fold eliminateNode xs doc1) body \<noteq> None) \<and>
     (\<forall>xs u ys d ns.
        removeList = xs @ u # ys \<and>
        forEachM unwrapNode xs (fold eliminateNode forbiddenList doc1) = Some d \<and>
        treeWalker (depthFuel content) d body = Some ns \<and>
        u \<notin> set ns \<longrightarrow>
        (\<exists>d'. unwrapNode u d = Some d' \<and>
           innerHTML (depthFuel content) d' body = innerHTML (depthFuel content) d body \<and>
           innerHTML (depthFuel content) d body \<noteq> None))"
proof -
  let ?d0 = "parseFromString content"
  let ?ns = "walkOrder content"
  let ?d1 = "visited W E (set ?ns) ?d0"
  let ?rl = "filter (unknownAt ?d0) ?ns" and ?fl = "filter (forbiddenAt ?d0) ?ns"
  let ?B1 = "walkedTree W E content"
  let ?fuel = "depthFuel content"
  have walk: "walkDocument W E content = Some (?d1, ?rl, ?fl)" by (rule walkDocument_eq)
  have ok1: "domOk ?d1" by (simp add: domOk_visited parse_domOk)
  have h1: "holds ?d1 None ?B1" unfolding walkedTree_def by (rule holds_walked)
  have dist1: "distinct (ids ?B1)" unfolding walkedTree_ids by (rule distinct_ids_bodyTree)
  have nid1: "nid ?B1 = body" by (simp add: walkedTree_def)
  have body_fl: "body \<notin> set ?fl" using body_notin_walkOrder [of content] by simp
  from sanitizeDocument_main [of W E content]
  obtain doc3 where run: "sanitizeDocument W E content = Some doc3" by blast
  then have seq: "forEachM unwrapNode ?rl (fold eliminateNode ?fl ?d1) = Some doc3"
    by (simp add: sanitizeDocument_def walk)
  have html: "\<exists>out. sanitizeHtml W E content = Some out" by (simp add: sanitizeHtml_eq)
  have elim: "innerHTML ?fuel (eliminateNode f (fold eliminateNode xs ?d1)) body =
          innerHTML ?fuel (fold eliminateNode xs ?d1) body \<and>
        innerHTML ?fuel (fold eliminateNode xs ?d1) body \<noteq> None"
    if fl: "?fl = xs @ f # ys"
      and tw: "treeWalker ?fuel (fold eliminateNode xs ?d1) body = Some ns"
      and f: "f \<notin> set ns" for xs f ys ns
  proof -
    let ?dx = "pruned (set xs) ?d1" and ?Bx = "pruneT (set xs) ?B1"
    have dx: "fold eliminateNode xs ?d1 = ?dx" by (rule fold_eliminateNode [OF ok1])
    have okx: "domOk ?dx" by (rule domOk_pruned [OF ok1])
    have "set xs \<subseteq> set ?fl" "f \<in> set ?fl" unfolding fl by auto
    then have bx: "body \<notin> set xs" "f \<noteq> body" using body_fl by auto
    have hx: "holds ?dx None ?Bx" using holds_pruned [OF h1, of "set xs"] bx(1) nid1 by simp
    have nidx: "nid ?Bx = body" by (simp add: nid1)
    have "distinct (ids ?Bx)" "set (ids ?Bx) \<subseteq> set (ids ?B1)"
      using ids_pruneT [OF dist1, of "set xs"] by blast+
    then have depx: "depth ?Bx \<le> ?fuel" by (rule depth_walked_sub)
    from treeWalker_holds [OF hx depx] tw have ns: "ns = idsF (kids ?Bx)"
      by (simp add: dx nidx nid1)
    have "pruneT {f} ?Bx = ?Bx" using f ns by (intro pruneT_id) auto
    then have hx': "holds (pruned {f} ?dx) None ?Bx"
      using holds_pruned [OF hx, of "{f}"] bx(2) nidx by simp
    have "eliminateNode f ?dx = pruned {f} ?dx" by (rule eliminateNode_pruned [OF okx])
    then show ?thesis
      using innerHTML_holds [OF hx depx] innerHTML_holds [OF hx' depx]
      by (simp add: dx nidx nid1)
  qed
  let ?d2 = "pruned (set ?fl) ?d1" and ?B2 = "pruneT (set ?fl) ?B1"
  have d2: "fold eliminateNode ?fl ?d1 = ?d2" by (rule fold_eliminateNode [OF ok1])
  have ok2: "domOk ?d2" by (rule domOk_pruned [OF ok1])
  have h2: "holds ?d2 None ?B2" using holds_pruned [OF h1, of "set ?fl"] body_fl nid1 by simp
  have dist2: "distinct (ids ?B2)" and sub2: "set (ids ?B2) \<subseteq> set (ids ?B1)"
    using ids_pruneT [OF dist1, of "set ?fl"] by blast+
  have unwrap: "\<exists>d'. unwrapNode u d = Some d' \<and>
           innerHTML ?fuel d' body = innerHTML ?fuel d body \<and>
           innerHTML ?fuel d body \<noteq> None"
    if rl: "?rl = xs @ u # ys"
      and fe: "forEachM unwrapNode xs (fold eliminateNode ?fl ?d1) = Some d"
      and tw: "treeWalker ?fuel d body = Some ns"
      and u: "u \<notin> set ns" for xs u ys d ns
  proof -
    let ?Bx = "fold unwT xs ?B2"
    from forEachM_unwrapNode [OF ok2 h2 dist2, of xs] fe
    have okx: "domOk d" and hx: "holds d None ?Bx" by (auto simp: d2)
    have nidx: "nid ?Bx = body"
      using holds_root_parent [OF hx] by (induction xs rule: rev_induct) (simp_all add: nid1)
    have "distinct (ids ?Bx)" "set (ids ?Bx) \<subseteq> set (ids ?B2)"
      using ids_fold_unwT [OF dist2, of xs] by blast+
    then have "distinct (ids ?Bx)" "set (ids ?Bx) \<subseteq> set (ids ?B1)"
      using sub2 by blast+
    then have depx: "depth ?Bx \<le> ?fuel" by (rule depth_walked_sub)
    from treeWalker_holds [OF hx depx, unfolded nidx] tw have ns: "ns = idsF (kids ?Bx)"
      by (simp only: option.inject)
    have "u \<notin> set (idsF (kids ?Bx))" using u unfolding ns .
    then have "unwT u ?Bx = ?Bx" by (rule unwT_id)
    then have hx': "holds (unwrapped u d) None ?Bx"
      using holds_unwrapped [OF okx hx \<open>distinct (ids ?Bx)\<close>, of u] by simp
    have "unwrapNode u d = Some (unwrapped u d)" by (rule unwrapNode_unwrapped [OF okx])
    then show ?thesis
      using innerHTML_holds [OF hx depx, unfolded nidx] innerHTML_holds [OF hx' depx, unfolded nidx]
      by (simp only:) simp
  qed
  show ?thesis
    using walk seq run html elim unwrap
    by (intro exI [of _ ?d1] exI [of _ ?rl] exI [of _ ?fl] exI [of _ doc3]) (simp; blast)
qed

lemma lower_tags [simp]:
  "toLowerCase ''OBJECT'' = ''object''" "toLowerCase ''MARQUEE'' = ''marquee''"
  "toLowerCase ''SCRIPT'' = ''script''"
  by (simp_all add: toLowerCase.simps kelvinSign_def lowerChar_def)

theorem C8_deferred_removal_witness:
  "\<exists>doc1 doc3.
     walkDocument demoWebUri demoEmail
       [Element ''OBJECT'' [] [Element ''SCRIPT'' [] [], Element ''MARQUEE'' [] [Text ''t'']],
        Text ''kept''] = Some (doc1, [3], [1, 2]) \<and>
     sanitizeDocument demoWebUri demoEmail
       [Element ''OBJECT'' [] [Element ''SCRIPT'' [] [], Element ''MARQUEE'' [] [Text ''t'']],
        Text ''kept''] = Some doc3 \<and>
     treeWalker 7 (fold eliminateNode [1] doc1) body = Some [5] \<and>
     innerHTML 7 (eliminateNode 2 (fold eliminateNode [1] doc1)) body =
       innerHTML 7 (fold eliminateNode [1] doc1) body \<and>
     treeWalker 7 (fold eliminateNode [1, 2] doc1) body = Some [5] \<and>
     (\<exists>d'. unwrapNode 3 (fold eliminateNode [1, 2] doc1) = Some d' \<and>
        innerHTML 7 d' body = innerHTML 7 (fold eliminateNode [1, 2] doc1) body)"
proof -
  let ?X = "[Element ''OBJECT'' [] [Element ''SCRIPT'' [] [], Element ''MARQUEE'' [] [Text ''t'']],
        Text ''kept'']"
  let ?d = "parseFromString ?X"
  have fuel: "depthFuel ?X = 7" by (simp add: depthFuel_def)
  from C8_deferred_removal [of demoWebUri demoEmail ?X]
  obtain doc1 rl fl doc3 where
    w: "walkDocument demoWebUri demoEmail ?X = Some (doc1, rl, fl)"
    and par: "parentNode doc1 = parentNode ?d"
    and ch: "childNodes doc1 = childNodes ?d"
    and run: "sanitizeDocument demoWebUri demoEmail ?X = Some doc3"
    and elim: "\<forall>xs f ys ns.
        fl = xs @ f # ys \<and>
        treeWalker (depthFuel ?X) (fold eliminateNode xs doc1) body = Some ns \<and>
        f \<notin> set ns \<longrightarrow>
        innerHTML (depthFuel ?X) (eliminateNode f (fold eliminateNode xs doc1)) body =
          innerHTML (depthFuel ?X) (fold eliminateNode xs doc1) body \<and>
        innerHTML (depthFuel ?X) (fold eliminateNode xs doc1) body \<noteq> None"
    and unwrap: "\<forall>xs u ys d ns.
        rl = xs @ u # ys \<and>
        forEachM unwrapNode xs (fold eliminateNode fl doc1) = Some d \<and>
        treeWalker (depthFuel ?X) d body = Some ns \<and>
        u \<notin> set ns \<longrightarrow>
        (\<exists>d'. unwrapNode u d = Some d' \<and>
           innerHTML (depthFuel ?X) d' body = innerHTML (depthFuel ?X) d body \<and>
           innerHTML (depthFuel ?X) d body \<noteq> None)"
    by blast
  have names: "nodeName ?d (Suc 0) = ''OBJECT''" "nodeName ?d (Suc (Suc 0)) = ''SCRIPT''"
    "nodeName ?d (Suc (Suc (Suc 0))) = ''MARQUEE''"
    "nodeName ?d (Suc (Suc (Suc (Suc 0)))) = ''#text''"
    "nodeName ?d (Suc (Suc (Suc (Suc (Suc 0))))) = ''#text''"
    using parse_holds [of ?X] by (simp_all add: bodyTree_def body_def)
  have struct: "childNodes ?d 0 = [Suc 0, Suc (Suc (Suc (Suc (Suc 0))))]"
    "childNodes ?d (Suc 0) = [Suc (Suc 0), Suc (Suc (Suc 0))]"
    "childNodes ?d (Suc (Suc (Suc (Suc (Suc 0))))) = []"
    "parentNode ?d (Suc 0) = Some 0" "parentNode ?d (Suc (Suc 0)) = Some (Suc 0)"
    using parse_holds [of ?X] by (simp_all add: bodyTree_def body_def)
  have order: "walkOrder ?X = [Suc 0, Suc (Suc 0), Suc (Suc (Suc 0)), Suc (Suc (Suc (Suc 0))),
      Suc (Suc (Suc (Suc (Suc 0))))]"
    by (simp add: walkOrder_def upt_conv_Cons del: upt_Suc)
  have lists: "fl = [1, 2]" "rl = [3]"
    using w unfolding walkDocument_eq
    by (simp_all add: order forbiddenAt_def unknownAt_def isForbidden_def isAllowedTag_def names
        forbiddenTags_def allowedTags_def eval_nat_numeral)
  have e1: "fold eliminateNode [1] doc1 =
      doc1\<lparr>childNodes := (childNodes doc1)(0 := [Suc (Suc (Suc (Suc (Suc 0))))]),
           parentNode := (parentNode doc1)(Suc 0 := None)\<rparr>"
    by (simp add: eliminateNode_def removeChild_def par ch struct)
  have t1: "treeWalker 7 (fold eliminateNode [1] doc1) body = Some [5]"
    unfolding e1 by (simp add: eval_nat_numeral body_def ch struct)
  have e2: "fold eliminateNode [1, 2] doc1 =
      doc1\<lparr>childNodes := (childNodes doc1)(0 := [Suc (Suc (Suc (Suc (Suc 0))))],
                Suc 0 := [Suc (Suc (Suc 0))]),
           parentNode := (parentNode doc1)(Suc 0 := None, Suc (Suc 0) := None)\<rparr>"
    by (simp add: eliminateNode_def removeChild_def par ch struct eval_nat_numeral)
  have t2: "treeWalker 7 (fold eliminateNode [1, 2] doc1) body = Some [5]"
    unfolding e2 by (simp add: eval_nat_numeral body_def ch struct)
  have a1: "fl = [1] @ 2 # [] \<and>
        treeWalker (depthFuel ?X) (fold eliminateNode [1] doc1) body = Some [5] \<and>
        2 \<notin> set [5::nat]"
    using lists t1 by (simp add: fuel)
  have a2: "rl = [] @ 3 # [] \<and>
        forEachM unwrapNode [] (fold eliminateNode fl doc1) = Some (fold eliminateNode [1, 2] doc1) \<and>
        treeWalker (depthFuel ?X) (fold eliminateNode [1, 2] doc1) body = Some [5] \<and>
        3 \<notin> set [5::nat]"
    using lists t2 by (simp add: fuel)
  note c1 = mp [OF spec [OF spec [OF spec [OF spec [OF elim]]]] a1]
  note c2 = mp [OF spec [OF spec [OF spec [OF spec [OF spec [OF unwrap]]]]] a2]
  show ?thesis
    using w run t1 t2 c1 c2 lists unfolding fuel by blast
qed


lemma stripAttrs_not_rejected:
  "b \<in> set (stripAttrs W E tg as) \<Longrightarrow> \<not> attrRejected W E tg b"
  by (force simp: stripAttrs_def)

lemma stripAttrs_clean:
  "(\<And>b. b \<in> set F \<Longrightarrow> \<not> attrRejected W E tg b) \<Longrightarrow> stripAttrs W E tg F = F"
  by (simp add: stripAttrs_def filter_empty_conv [THEN iffD2] filter_id_conv)

lemma stripAttrs_no_target: "''target'' \<notin> fst ` set (stripAttrs W E tg as)"
  using stripAttrs_target [of W E tg as] by (simp add: map_of_eq_None_iff)

lemma setAttr_absent: "k \<notin> fst ` set xs \<Longrightarrow> setAttr k v xs = xs @ [(k, v)]"
  by (induction xs) auto

lemma setAttr_append_in:
  "k \<in> fst ` set xs \<Longrightarrow> setAttr k v (xs @ ys) = setAttr k v xs @ ys"
  by (induction xs) auto

lemma setAttr_append_out:
  "k \<notin> fst ` set xs \<Longrightarrow> setAttr k v (xs @ ys) = xs @ setAttr k v ys"
  by (induction xs) auto

lemma setAttr_idem: "setAttr k v (setAttr k v xs) = setAttr k v xs"
  by (induction xs) auto

lemma names_setAttr: "fst ` set (setAttr k v xs) = insert k (fst ` set xs)"
  by (induction xs) auto

lemma set_setAttr: "set (setAttr k v xs) \<subseteq> insert (k, v) (set xs)"
  by (induction xs) auto

lemma setAttr_has: "(k, v) \<in> set (setAttr k v xs)"
  by (induction xs) auto

lemma setAttr_keeps: "b \<in> set xs \<Longrightarrow> fst b \<noteq> k \<Longrightarrow> b \<in> set (setAttr k v xs)"
  by (induction xs) auto

lemma filter_name_id: "k \<notin> fst ` set xs \<Longrightarrow> filter (\<lambda>b. fst b \<noteq> k) xs = xs"
  by (induction xs) auto

lemma filter_name_none: "k \<notin> fst ` set xs \<Longrightarrow> filter (\<lambda>b. fst b = k) xs = []"
  by (induction xs) auto

lemma targetLast_id: "''target'' \<notin> fst ` set xs \<Longrightarrow> targetLast xs = xs"
  by (simp add: targetLast_def filter_name_id filter_name_none)

text \<open>The forced attributes on a filtered anchor, and what a second visit makes of them.\<close>

lemma forced_second_visit:
  assumes clean: "\<And>b. b \<in> set F \<Longrightarrow> \<not> attrRejected W E ''a'' b"
    and nt: "''target'' \<notin> fst ` set F"
    and h: "map_of F ''href'' = Some h" "\<not> startsWith h ''mailto:''"
  shows "visitAttrs W E ''a''
            (setAttr ''rel'' ''external noopener noreferrer'' (setAttr ''target'' ''_blank'' F)) =
         targetLast (setAttr ''rel'' ''external noopener noreferrer'' (setAttr ''target'' ''_blank'' F))"
proof -
  let ?r = "''external noopener noreferrer''" and ?t = "''_blank''"
  let ?G = "setAttr ''rel'' ?r F"
  let ?N = "setAttr ''rel'' ?r (setAttr ''target'' ?t F)"
  have ntG: "''target'' \<notin> fst ` set ?G" using nt by (simp add: names_setAttr)
  have relG: "''rel'' \<in> fst ` set ?G" by (simp add: names_setAttr)
  have forms: "(?N = ?G @ [(''target'', ?t)]) \<or>
      (''rel'' \<notin> fst ` set F \<and> ?N = F @ [(''target'', ?t), (''rel'', ?r)])"
  proof (cases "''rel'' \<in> fst ` set F")
    case True
    then show ?thesis by (simp add: setAttr_absent [OF nt] setAttr_append_in)
  next
    case False
    then show ?thesis by (simp add: setAttr_absent [OF nt] setAttr_append_out)
  qed
  have lastN: "filter (\<lambda>b. fst b = ''target'') ?N = [(''target'', ?t)]"
    using forms by (auto simp: filter_name_none [OF ntG] filter_name_none [OF nt] setAttr_absent)
  have filtN: "filter (\<lambda>b. fst b \<noteq> ''target'') ?N = ?G"
    using forms by (auto simp: filter_name_id [OF ntG] filter_name_id [OF nt] setAttr_absent)
  have tin: "(''target'', ?t) \<in> set ?N"
    by (intro setAttr_keeps setAttr_has) simp
  have rej: "attrRejected W E ''a'' b \<longleftrightarrow> fst b = ''target''" if b: "b \<in> set ?N" for b
  proof -
    from b set_setAttr [of "''rel''" ?r "setAttr ''target'' ?t F"]
      set_setAttr [of "''target''" ?t F]
    consider "b = (''rel'', ?r)" | "b = (''target'', ?t)" | "b \<in> set F" by blast
    then show ?thesis
    proof cases
      case 1
      then show ?thesis by (simp add: attrRejected_def isAllowedAttr_def)
    next
      case 2
      then show ?thesis by (simp add: target_rejected)
    next
      case 3
      then have "fst b \<in> fst ` set F" by (rule imageI)
      then have "fst b \<noteq> ''target''" using nt by metis
      then show ?thesis using clean [OF 3] by simp
    qed
  qed
  have names: "fst ` set (filter (attrRejected W E ''a'') ?N) = {''target''}"
  proof
    show "fst ` set (filter (attrRejected W E ''a'') ?N) \<subseteq> {''target''}"
      using rej by auto
    have "(''target'', ?t) \<in> set (filter (attrRejected W E ''a'') ?N)"
      using tin by (simp add: target_rejected)
    then show "{''target''} \<subseteq> fst ` set (filter (attrRejected W E ''a'') ?N)"
      by force
  qed
  have strip: "stripAttrs W E ''a'' ?N = ?G"
    unfolding stripAttrs_def names using filtN by simp
  have hG: "map_of ?G ''href'' = Some h" using h(1) by (simp add: map_of_setAttr)
  have "visitAttrs W E ''a'' ?N = setAttr ''rel'' ?r (setAttr ''target'' ?t ?G)"
    by (simp add: visitAttrs_def strip normAttrs_forced [OF hG h(2)])
  also have "\<dots> = ?G @ [(''target'', ?t)]"
    by (simp add: setAttr_absent [OF ntG] setAttr_append_in [OF relG] setAttr_idem)
  finally show ?thesis by (simp add: targetLast_def filtN lastN)
qed

lemma visitAttrs_twice:
  "visitAttrs W E tg (visitAttrs W E tg as) = targetLast (visitAttrs W E tg as)"
proof -
  let ?F = "stripAttrs W E tg as"
  have clean: "\<And>b. b \<in> set ?F \<Longrightarrow> \<not> attrRejected W E tg b"
    by (rule stripAttrs_not_rejected)
  have again: "stripAttrs W E tg ?F = ?F" using clean by (rule stripAttrs_clean)
  show ?thesis
  proof (cases "tg = ''a'' \<and> (\<exists>h. map_of ?F ''href'' = Some h \<and> \<not> startsWith h ''mailto:'')")
    case True
    then obtain h where h: "map_of ?F ''href'' = Some h" "\<not> startsWith h ''mailto:''" and a: "tg = ''a''"
      by blast
    have N: "visitAttrs W E tg as =
        setAttr ''rel'' ''external noopener noreferrer'' (setAttr ''target'' ''_blank'' ?F)"
      using a normAttrs_forced [of ?F h] h by (simp add: visitAttrs_def)
    show ?thesis
      unfolding N using forced_second_visit [of "stripAttrs W E ''a'' as" W E h]
        clean stripAttrs_no_target [of W E "''a''" as] h a
      by simp
  next
    case False
    then have "normAttrs tg ?F = ?F" by (auto simp: normAttrs_def split: option.splits)
    then show ?thesis
      by (simp add: visitAttrs_def again targetLast_id [OF stripAttrs_no_target])
  qed
qed

lemma sanitizeForest_concat:
  "sanitizeForest W E (concat xss) = concat (map (sanitizeForest W E) xss)"
  by (induction xss) (simp_all add: sanitizeForest_append)

lemma sanitizeTree_twice:
  "sanitizeForest W E (sanitizeTree W E t) = map retarget (sanitizeTree W E t)"
proof (induction t)
  case (Element nm as cs)
  have "concat (map (\<lambda>c. sanitizeForest W E (sanitizeTree W E c)) cs) =
      concat (map (\<lambda>c. map retarget (sanitizeTree W E c)) cs)"
    using Element.IH by (induction cs) simp_all
  then have kids: "sanitizeForest W E (sanitizeForest W E cs) = map retarget (sanitizeForest W E cs)"
    unfolding sanitizeForest_def [of W E cs] sanitizeForest_concat map_map comp_def map_concat
    by simp
  show ?case
  proof (cases "forbiddenName nm \<or> \<not> allowedInfo nm as")
    case True
    then show ?thesis using kids by (auto simp: sanitizeTree_Element)
  next
    case False
    then have k: "\<not> forbiddenName nm" "allowedInfo nm as" by auto
    have "sanitizeForest W E [Element nm (visitAttrs W E (toLowerCase nm) as) (sanitizeForest W E cs)] =
        [Element nm (visitAttrs W E (toLowerCase nm) (visitAttrs W E (toLowerCase nm) as))
           (sanitizeForest W E (sanitizeForest W E cs))]"
      using k allowedInfo_visitAttrs [OF k(2), of W E]
      by (simp add: sanitizeForest_Cons sanitizeTree_Element)
    then show ?thesis
      using k kids by (simp add: sanitizeTree_Element visitAttrs_twice)
  qed
next
  case (Text s)
  show ?case by (simp add: sanitizeForest_Cons)
next
  case (Comment s)
  show ?case by simp
qed

lemma sanitizeForest_twice:
  "sanitizeForest W E (sanitizeForest W E x) = map retarget (sanitizeForest W E x)"
proof -
  have "concat (map (\<lambda>c. sanitizeForest W E (sanitizeTree W E c)) x) =
      concat (map (\<lambda>c. map retarget (sanitizeTree W E c)) x)"
    by (simp add: sanitizeTree_twice)
  then show ?thesis
    unfolding sanitizeForest_def [of W E x] sanitizeForest_concat map_map comp_def map_concat
    by simp
qed

text \<open>
  Without the hypothesis on the parser the second call can change more than the order of
  attributes. \<^verbatim>\<open><p><marquee><div>x</div></marquee></p>\<close> gives \<^verbatim>\<open><p><div>x</div></p>\<close>, which an
  HTML parser reads as \<^verbatim>\<open><p></p><div>x</div><p></p>\<close>: a \<^verbatim>\<open>div\<close> closes an open \<^verbatim>\<open>p\<close>.
\<close>

lemma reparse_changes_structure:
  "sanitizeString demoReader demoPrinter W E ''<p><marquee><div>x</div></marquee></p>'' =
     Some ''<p><div>x</div></p>'' \<and>
   sanitizeString demoReader demoPrinter W E ''<p><div>x</div></p>'' =
     Some ''<p></p><div>x</div><p></p>''"
  unfolding sanitizeString_def sanitizeHtml_eq
  by (simp add: demoReader_def demoPrinter_def evalTree)



end
